theory Spec2Isabelle
  imports Main "HOL-Library.Multiset" "HOL-Library.Sublist"
    "HOL-Library.Char_ord" "HOL-Library.List_Lexorder"
begin

section \<open>Strings\<close>

text \<open>
  Python strings are modelled as \<open>string\<close>. The helpers below are the string methods the
  crawler uses: \<^verbatim>\<open>str.lower\<close> (on ASCII letters), \<^verbatim>\<open>str.startswith\<close>,
  \<^verbatim>\<open>str.endswith\<close>, \<^verbatim>\<open>s.split(c)[0]\<close> and \<^verbatim>\<open>str(n)\<close>.
\<close>

definition is_upper :: "char \<Rightarrow> bool" where
  "is_upper c = (65 \<le> (of_char c :: nat) \<and> (of_char c :: nat) \<le> 90)"

definition is_alpha :: "char \<Rightarrow> bool" where
  "is_alpha c = (is_upper c \<or> (97 \<le> (of_char c :: nat) \<and> (of_char c :: nat) \<le> 122))"

definition is_digit :: "char \<Rightarrow> bool" where
  "is_digit c = (48 \<le> (of_char c :: nat) \<and> (of_char c :: nat) \<le> 57)"

definition lower_char :: "char \<Rightarrow> char" where
  "lower_char c = (if is_upper c then char_of ((of_char c :: nat) + 32) else c)"

definition lower :: "string \<Rightarrow> string" where
  "lower s = map lower_char s"

definition startswith :: "string \<Rightarrow> string \<Rightarrow> bool" where
  "startswith s p = (take (length p) s = p)"

definition endswith :: "string \<Rightarrow> string \<Rightarrow> bool" where
  "endswith s x = (length x \<le> length s \<and> drop (length s - length x) s = x)"

definition split_first :: "char \<Rightarrow> string \<Rightarrow> string" where
  \<comment> \<open>\<^verbatim>\<open>s.split(c)[0]\<close>: the part of \<open>s\<close> before the first \<open>c\<close>, all of \<open>s\<close> when there is none\<close>
  "split_first c s = takeWhile (\<lambda>x. x \<noteq> c) s"

definition split_rest :: "char \<Rightarrow> string \<Rightarrow> string" where
  \<comment> \<open>\<^verbatim>\<open>s.split(c, 1)[1]\<close> when \<open>c\<close> occurs in \<open>s\<close>\<close>
  "split_rest c s = drop 1 (dropWhile (\<lambda>x. x \<noteq> c) s)"

fun str_nat :: "nat \<Rightarrow> string" where
  "str_nat n = (if n < 10 then [char_of (48 + n)]
                else str_nat (n div 10) @ [char_of (48 + n mod 10)])"

definition str_int :: "int \<Rightarrow> string" where
  "str_int i = (if i < 0 then CHR ''-'' # str_nat (nat (- i)) else str_nat (nat i))"

section \<open>The URL library\<close>

text \<open>
  \<^verbatim>\<open>urllib.parse.urlparse\<close> is library code; the model follows its algorithm
  (\<^verbatim>\<open>urlsplit\<close> followed by the parameter split of \<^verbatim>\<open>urlparse\<close>): an optional
  scheme before the first colon, a network location after \<^verbatim>\<open>//\<close> up to the first of
  \<^verbatim>\<open>/ ? #\<close>, then fragment, query and parameters cut off the path. The inputs on which the
  library raises \<^verbatim>\<open>ValueError\<close> are not strings of this model: a link on which
  \<^verbatim>\<open>urljoin\<close> raises is the value \<open>Malformed\<close> of the page model below.
\<close>

record parse_result =
  scheme :: string
  netloc :: string
  path :: string
  params :: string
  query :: string
  fragment :: string

definition is_scheme_char :: "char \<Rightarrow> bool" where
  "is_scheme_char c = (is_alpha c \<or> is_digit c \<or> c \<in> set ''+-.'')"

definition split_scheme :: "string \<Rightarrow> string \<times> string" where
  "split_scheme url =
     (let pre = split_first CHR '':'' url in
      if CHR '':'' \<in> set url \<and> pre \<noteq> [] \<and> is_alpha (hd pre) \<and> list_all is_scheme_char pre
      then (lower pre, drop (length pre + 1) url)
      else ([], url))"

definition is_netloc_delim :: "char \<Rightarrow> bool" where
  "is_netloc_delim c = (c = CHR ''/'' \<or> c = CHR ''?'' \<or> c = CHR ''#'')"

definition split_netloc :: "string \<Rightarrow> string \<times> string" where
  "split_netloc url =
     (if take 2 url = ''//''
      then (takeWhile (\<lambda>c. \<not> is_netloc_delim c) (drop 2 url),
            dropWhile (\<lambda>c. \<not> is_netloc_delim c) (drop 2 url))
      else ([], url))"

definition uses_params :: "string list" where
  "uses_params = ['''', ''ftp'', ''hdl'', ''prospero'', ''http'', ''imap'', ''https'',
     ''shttp'', ''rtsp'', ''rtspu'', ''sip'', ''sips'', ''mms'', ''sftp'', ''tel'']"

definition last_segment :: "string \<Rightarrow> string" where
  \<comment> \<open>the part after the last slash, the whole string when there is none\<close>
  "last_segment p = rev (takeWhile (\<lambda>c. c \<noteq> CHR ''/'') (rev p))"

definition splitparams :: "string \<Rightarrow> string \<times> string" where
  \<comment> \<open>cut at the first semicolon of the last path segment\<close>
  "splitparams p =
     (let seg = last_segment p in
      if CHR '';'' \<in> set seg
      then (take (length p - length seg) p @ split_first CHR '';'' seg, split_rest CHR '';'' seg)
      else (p, []))"

definition urlparse :: "string \<Rightarrow> parse_result" where
  "urlparse url =
     (let (sch, r1) = split_scheme url;
          (loc, r2) = split_netloc r1;
          frag = (if CHR ''#'' \<in> set r2 then split_rest CHR ''#'' r2 else []);
          r3 = split_first CHR ''#'' r2;
          qry = (if CHR ''?'' \<in> set r3 then split_rest CHR ''?'' r3 else []);
          r4 = split_first CHR ''?'' r3;
          (pth, par) = (if sch \<in> set uses_params \<and> CHR '';'' \<in> set r4
                        then splitparams r4 else (r4, []))
      in \<lparr>scheme = sch, netloc = loc, path = pth, params = par, query = qry, fragment = frag\<rparr>)"

section \<open>The web\<close>

text \<open>
  A run reads the web through \<^verbatim>\<open>session.get\<close>. The answer to a GET is either an exception
  (transport error, timeout, a body the parser rejects) or a response with a status code and,
  once the body is parsed, the \<^verbatim>\<open>href\<close> of every anchor in document order, each already
  resolved against the page with \<^verbatim>\<open>urljoin\<close>; \<open>Malformed\<close> stands for an anchor on which
  \<^verbatim>\<open>urljoin\<close> raises.
  A Python \<^verbatim>\<open>set\<close> is iterated in an order the language does not fix: \<open>set_order\<close> is
  that order, applied to the elements in insertion order.
\<close>

datatype href = Resolved string | Malformed

datatype response = Raised | Resp nat "href list"

record env =
  http_get :: "string \<Rightarrow> response"
  set_order :: "string list \<Rightarrow> string list"

definition raise_for_status :: "nat \<Rightarrow> bool" where
  \<comment> \<open>\<^verbatim>\<open>Response.raise_for_status\<close> raises for the client and server error codes\<close>
  "raise_for_status status = (400 \<le> status \<and> status < 600)"

section \<open>PDFCrawler\<close>

record crawler =
  base_url :: string
  base_domain :: string
  max_depth :: int
  visited_urls :: "string set"
  pdf_urls :: "string set"
  fetched :: "string list"

text \<open>
  \<open>fetched\<close> is the sequence of URLs on which \<^verbatim>\<open>self.session.get\<close> was called by
  \<^verbatim>\<open>get_page_links\<close>. The field \<^verbatim>\<open>delay\<close> only feeds \<^verbatim>\<open>time.sleep\<close> and is left out.
\<close>

definition PDFCrawler :: "string \<Rightarrow> int \<Rightarrow> crawler" where
  "PDFCrawler url depth =
     \<lparr>base_url = url, base_domain = netloc (urlparse url), max_depth = depth,
      visited_urls = {}, pdf_urls = {}, fetched = []\<rparr>"

definition is_valid_url :: "crawler \<Rightarrow> string \<Rightarrow> bool" where
  "is_valid_url self url =
     (let parsed = urlparse url in
      if netloc parsed \<noteq> base_domain self then False
      else if \<not> startswith (path parsed) (path (urlparse (base_url self))) then False
      else True)"

definition is_pdf :: "string \<Rightarrow> bool" where
  "is_pdf url = endswith (lower url) ''.pdf''"

definition strip_fragment :: "string \<Rightarrow> string" where
  "strip_fragment url = split_first CHR ''#'' url"

definition set_add :: "string \<Rightarrow> string list \<Rightarrow> string list" where
  \<comment> \<open>\<^verbatim>\<open>links.add(x)\<close> on the elements of a set, listed in insertion order\<close>
  "set_add x xs = (if x \<in> set xs then xs else xs @ [x])"

text \<open>
  The body of the \<^verbatim>\<open>for link in soup.find_all('a', href=True)\<close> loop of
  \<^verbatim>\<open>get_page_links\<close>. The result is \<open>None\<close> when an exception leaves the loop; the
  PDF URLs added before it stay in \<open>pdf_urls\<close>.
\<close>

fun get_page_links_loop :: "href list \<Rightarrow> string list \<Rightarrow> crawler \<Rightarrow> string list option \<times> crawler" where
  "get_page_links_loop [] links self = (Some links, self)"
| "get_page_links_loop (Malformed # hs) links self = (None, self)"
| "get_page_links_loop (Resolved u # hs) links self =
     (let full_url = strip_fragment u in
      if is_pdf full_url
      then get_page_links_loop hs links (self\<lparr>pdf_urls := insert full_url (pdf_urls self)\<rparr>)
      else if is_valid_url self full_url
      then get_page_links_loop hs (set_add full_url links) self
      else get_page_links_loop hs links self)"

definition get_page_links :: "env \<Rightarrow> string \<Rightarrow> crawler \<Rightarrow> string list \<times> crawler" where
  "get_page_links e url self =
     (let self1 = self\<lparr>fetched := fetched self @ [url]\<rparr> in
      case http_get e url of
        Raised \<Rightarrow> ([], self1)
      | Resp status hrefs \<Rightarrow>
          if raise_for_status status then ([], self1)
          else (case get_page_links_loop hrefs [] self1 of
                  (None, self2) \<Rightarrow> ([], self2)
                | (Some links, self2) \<Rightarrow> (links, self2)))"

type_synonym frontier = "(string \<times> int) list"

fun add_links :: "int \<Rightarrow> string list \<Rightarrow> crawler \<times> frontier \<Rightarrow> crawler \<times> frontier" where
  "add_links depth [] (self, queue) = (self, queue)"
| "add_links depth (link # links) (self, queue) =
     (if link \<notin> visited_urls self
      then add_links depth links
             (self\<lparr>visited_urls := insert link (visited_urls self)\<rparr>, queue @ [(link, depth + 1)])
      else add_links depth links (self, queue))"

text \<open>One iteration of the \<^verbatim>\<open>while queue\<close> loop of \<^verbatim>\<open>crawl\<close>.\<close>

fun crawl_step :: "env \<Rightarrow> crawler \<times> frontier \<Rightarrow> crawler \<times> frontier" where
  "crawl_step e (self, []) = (self, [])"
| "crawl_step e (self, (url, depth) # queue) =
     (if depth > max_depth self then (self, queue)
      else (case get_page_links e url self of
              (links, self1) \<Rightarrow> add_links depth (set_order e links) (self1, queue)))"

text \<open>
  The \<^verbatim>\<open>while queue\<close> loop. It returns \<open>None\<close> when the loop never exits.
\<close>

partial_function (option) crawl_loop :: "env \<Rightarrow> crawler \<times> frontier \<Rightarrow> crawler option" where
  "crawl_loop e st = (if snd st = [] then Some (fst st) else crawl_loop e (crawl_step e st))"

declare crawl_loop.simps [code]

definition crawl_init :: "crawler \<Rightarrow> crawler \<times> frontier" where
  \<comment> \<open>the two statements of \<^verbatim>\<open>crawl\<close> before the loop\<close>
  "crawl_init self =
     (self\<lparr>visited_urls := insert (base_url self) (visited_urls self)\<rparr>, [(base_url self, 0)])"

definition crawl :: "env \<Rightarrow> crawler \<Rightarrow> crawler option" where
  "crawl e self = crawl_loop e (crawl_init self)"

section \<open>find\_all\_pdfs\<close>

record finder =
  visited :: "string set"
  pdfs :: "string set"
  queue :: "string list"
  requested :: "string list"

text \<open>
  The local variables of \<^verbatim>\<open>find_all_pdfs\<close>; \<open>requested\<close> is the sequence of URLs on
  which \<^verbatim>\<open>session.get\<close> was called. The loop over the anchors of a page runs inside the
  \<^verbatim>\<open>try\<close>: an exception ends it and keeps what was added before.
\<close>

fun find_links_loop :: "string \<Rightarrow> string \<Rightarrow> href list \<Rightarrow> finder \<Rightarrow> finder" where
  "find_links_loop bd bp [] st = st"
| "find_links_loop bd bp (Malformed # hs) st = st"
| "find_links_loop bd bp (Resolved u # hs) st =
     (let full_url = strip_fragment u; parsed = urlparse full_url in
      if endswith (lower full_url) ''.pdf''
      then find_links_loop bd bp hs (st\<lparr>pdfs := insert full_url (pdfs st)\<rparr>)
      else if netloc parsed = bd \<and> startswith (path parsed) bp \<and> full_url \<notin> visited st
      then find_links_loop bd bp hs (st\<lparr>queue := queue st @ [full_url]\<rparr>)
      else find_links_loop bd bp hs st)"

definition find_step :: "env \<Rightarrow> string \<Rightarrow> string \<Rightarrow> finder \<Rightarrow> finder" where
  "find_step e bd bp st =
     (case queue st of
        [] \<Rightarrow> st
      | url # rest \<Rightarrow>
          if url \<in> visited st then st\<lparr>queue := rest\<rparr>
          else (let st1 = st\<lparr>queue := rest, visited := insert url (visited st),
                              requested := requested st @ [url]\<rparr> in
                case http_get e url of
                  Raised \<Rightarrow> st1
                | Resp status hrefs \<Rightarrow> find_links_loop bd bp hrefs st1))"

partial_function (option) find_loop ::
    "env \<Rightarrow> string \<Rightarrow> string \<Rightarrow> finder \<Rightarrow> (string set \<times> string set) option" where
  "find_loop e bd bp st =
     (if queue st = [] then Some (pdfs st, visited st)
      else find_loop e bd bp (find_step e bd bp st))"

declare find_loop.simps [code]

definition find_init :: "string \<Rightarrow> finder" where
  "find_init url = \<lparr>visited = {}, pdfs = {}, queue = [url], requested = []\<rparr>"

definition find_all_pdfs :: "env \<Rightarrow> string \<Rightarrow> (string set \<times> string set) option" where
  "find_all_pdfs e url =
     find_loop e (netloc (urlparse url)) (path (urlparse url)) (find_init url)"

section \<open>Downloads\<close>

text \<open>
  Downloading reads the web through \<^verbatim>\<open>session.get\<close> again, now for the bytes of a
  file, and writes to the file system, a map from paths to contents. Opening a file for
  writing can fail, and so can the write after it, which leaves a truncated file behind.
  \<^verbatim>\<open>os.path.basename\<close> is \<open>last_segment\<close>; \<open>path_join\<close> is \<^verbatim>\<open>os.path.join\<close>; \<open>str_hash\<close> is
  Python's \<^verbatim>\<open>hash\<close> on strings, which changes from one process to the next.
\<close>

datatype dl_response = DlRaised | DlResp nat string

datatype write_result = Written | OpenError | WriteError nat

record dl_env =
  dl_get :: "string \<Rightarrow> dl_response"
  disk :: "string \<Rightarrow> write_result"
  makedirs_ok :: "string \<Rightarrow> bool"
  str_hash :: "string \<Rightarrow> int"

type_synonym files = "string \<Rightarrow> string option"

datatype outcome = Succeeded nat | Failed

datatype dl_error = FilesystemError

definition path_join :: "string \<Rightarrow> string \<Rightarrow> string" where
  "path_join a b =
     (if startswith b ''/'' then b
      else if a = [] \<or> endswith a ''/'' then a @ b
      else a @ ''/'' @ b)"

definition write_file :: "dl_env \<Rightarrow> string \<Rightarrow> string \<Rightarrow> files \<Rightarrow> bool \<times> files" where
  \<comment> \<open>\<^verbatim>\<open>with open(filepath, 'wb') as f: f.write(content)\<close>; the flag says whether it returned\<close>
  "write_file d filepath content fs =
     (case disk d filepath of
        Written \<Rightarrow> (True, fs(filepath \<mapsto> content))
      | OpenError \<Rightarrow> (False, fs)
      | WriteError n \<Rightarrow> (False, fs(filepath \<mapsto> take n content)))"

definition crawler_filename :: "nat \<Rightarrow> string \<Rightarrow> string" where
  "crawler_filename i pdf_url =
     (let filename = last_segment (path (urlparse pdf_url)) in
      if filename = [] \<or> \<not> endswith filename ''.pdf''
      then ''document_'' @ str_nat i @ ''.pdf'' else filename)"

text \<open>The body of the \<^verbatim>\<open>try\<close> in \<^verbatim>\<open>PDFCrawler.download_pdfs\<close>, for the item \<open>i\<close>.\<close>

definition download_item :: "dl_env \<Rightarrow> string \<Rightarrow> nat \<Rightarrow> string \<Rightarrow> files \<Rightarrow> outcome \<times> files" where
  "download_item d output_dir i pdf_url fs =
     (let filepath = path_join output_dir (crawler_filename i pdf_url) in
      case dl_get d pdf_url of
        DlRaised \<Rightarrow> (Failed, fs)
      | DlResp status content \<Rightarrow>
          if raise_for_status status then (Failed, fs)
          else (case write_file d filepath content fs of
                  (True, fs1) \<Rightarrow> (Succeeded (length content), fs1)
                | (False, fs1) \<Rightarrow> (Failed, fs1)))"

fun download_pdfs_loop ::
    "dl_env \<Rightarrow> string \<Rightarrow> (nat \<times> string) list \<Rightarrow> files \<Rightarrow> (string \<times> outcome) list \<times> files" where
  "download_pdfs_loop d output_dir [] fs = ([], fs)"
| "download_pdfs_loop d output_dir ((i, pdf_url) # rest) fs =
     (case download_item d output_dir i pdf_url fs of
        (r, fs1) \<Rightarrow> (case download_pdfs_loop d output_dir rest fs1 of
                       (rs, fs2) \<Rightarrow> ((pdf_url, r) # rs, fs2)))"

definition download_pdfs ::
    "dl_env \<Rightarrow> crawler \<Rightarrow> string \<Rightarrow> files \<Rightarrow> dl_error + (string \<times> outcome) list \<times> files" where
  "download_pdfs d self output_dir fs =
     (if pdf_urls self = {} then Inr ([], fs)
      else if \<not> makedirs_ok d output_dir then Inl FilesystemError
      else Inr (download_pdfs_loop d output_dir
                  (List.enumerate 1 (sorted_list_of_set (pdf_urls self))) fs))"

text \<open>\<^verbatim>\<open>download_pdf\<close> and the loop of \<^verbatim>\<open>download_from_file\<close> in \<^verbatim>\<open>download_pdfs.py\<close>.\<close>

definition hashed_filename :: "dl_env \<Rightarrow> string \<Rightarrow> string" where
  "hashed_filename d url =
     (let filename = last_segment (path (urlparse url)) in
      if filename = [] \<or> \<not> endswith filename ''.pdf''
      then ''document_'' @ str_int (str_hash d url) @ ''.pdf'' else filename)"

definition download_pdf :: "dl_env \<Rightarrow> string \<Rightarrow> string \<Rightarrow> files \<Rightarrow> bool \<times> files" where
  "download_pdf d url output_dir fs =
     (let filepath = path_join output_dir (hashed_filename d url) in
      case dl_get d url of
        DlRaised \<Rightarrow> (False, fs)
      | DlResp status content \<Rightarrow>
          if raise_for_status status then (False, fs)
          else write_file d filepath content fs)"

fun download_from_file_loop ::
    "dl_env \<Rightarrow> string \<Rightarrow> string list \<Rightarrow> nat \<times> (string \<times> bool) list \<times> files
       \<Rightarrow> nat \<times> (string \<times> bool) list \<times> files" where
  "download_from_file_loop d output_dir [] st = st"
| "download_from_file_loop d output_dir (url # urls) (success, printed, fs) =
     (case download_pdf d url output_dir fs of
        (ok, fs1) \<Rightarrow>
          download_from_file_loop d output_dir urls
            (if ok then success + 1 else success, printed @ [(url, ok)], fs1))"

definition download_from_file ::
    "dl_env \<Rightarrow> string list \<Rightarrow> string \<Rightarrow> files \<Rightarrow> dl_error + nat \<times> (string \<times> bool) list \<times> files" where
  \<comment> \<open>from the list of URLs read from the input file on\<close>
  "download_from_file d urls output_dir fs =
     (if urls = [] then Inr (0, [], fs)
      else if \<not> makedirs_ok d output_dir then Inl FilesystemError
      else Inr (download_from_file_loop d output_dir urls (0, [], fs)))"

section \<open>Notions used in the statements and proofs\<close>

text \<open>
  \<open>extracted\<close> lists the values \<^verbatim>\<open>full_url\<close> takes in the anchor loop of a page (up to the
  first anchor on which \<^verbatim>\<open>urljoin\<close> raises); \<open>new_links\<close> lists the links that the
  \<^verbatim>\<open>for link in links\<close> loop of \<^verbatim>\<open>crawl\<close> enqueues, given the visited set before it.
  \<open>layer e c k\<close> lists the URLs at the end of a chain of \<open>k\<close> links from the start URL, a
  link being what \<^verbatim>\<open>get_page_links\<close> returns for a page. \<open>finder_links\<close> and
  \<open>finder_pdfs\<close> are the links and the PDFs that \<^verbatim>\<open>find_all_pdfs\<close> takes from a page,
  \<open>page_pdfs\<close> the PDFs that \<^verbatim>\<open>get_page_links\<close> takes from it. \<open>weight\<close> is the measure
  that decreases with every iteration of \<^verbatim>\<open>crawl\<close>; the predicates ending in \<open>_inv\<close> and
  \<open>root_only\<close> are the loop invariants of the proofs below.
\<close>

fun extracted :: "href list \<Rightarrow> string list" where
  "extracted [] = []"
| "extracted (Malformed # hs) = []"
| "extracted (Resolved u # hs) = strip_fragment u # extracted hs"

fun new_links :: "string set \<Rightarrow> string list \<Rightarrow> string list" where
  "new_links V [] = []"
| "new_links V (l # ls) = (if l \<in> V then new_links V ls else l # new_links (insert l V) ls)"

definition weight :: "crawler \<times> frontier \<Rightarrow> nat multiset" where
  "weight st = mset (map (\<lambda>(u, d). nat (max_depth (fst st) + 1 - d)) (snd st))"

definition once_inv :: "crawler \<times> frontier \<Rightarrow> bool" where
  "once_inv st =
     (distinct (map fst (snd st)) \<and> fst ` set (snd st) \<subseteq> visited_urls (fst st) \<and>
      distinct (fetched (fst st)) \<and> set (fetched (fst st)) \<subseteq> visited_urls (fst st) \<and>
      set (fetched (fst st)) \<inter> fst ` set (snd st) = {})"

definition depth_inv :: "crawler \<times> frontier \<Rightarrow> bool" where
  "depth_inv st = list_all (\<lambda>(u, d). 0 \<le> d \<and> d \<le> max_depth (fst st) + 1) (snd st)"

definition root_only :: "crawler \<times> frontier \<Rightarrow> bool" where
  "root_only st =
     (max_depth (fst st) = 0 \<and>
      ((fetched (fst st) = [] \<and> snd st = [(base_url (fst st), 0)]) \<or>
       (fetched (fst st) = [base_url (fst st)] \<and> list_all (\<lambda>(u, d). d = 1) (snd st))))"

definition in_scope :: "string \<Rightarrow> string \<Rightarrow> string \<Rightarrow> bool" where
  "in_scope bd bp l =
     (\<not> endswith (lower l) ''.pdf'' \<and> netloc (urlparse l) = bd \<and> startswith (path (urlparse l)) bp)"

definition finder_links :: "env \<Rightarrow> string \<Rightarrow> string \<Rightarrow> string \<Rightarrow> string list" where
  "finder_links e bd bp u =
     (case http_get e u of Raised \<Rightarrow> [] | Resp status hs \<Rightarrow> filter (in_scope bd bp) (extracted hs))"

definition finder_pdfs :: "env \<Rightarrow> string \<Rightarrow> string set" where
  "finder_pdfs e u =
     (case http_get e u of Raised \<Rightarrow> {}
      | Resp status hs \<Rightarrow> set (filter (\<lambda>l. endswith (lower l) ''.pdf'') (extracted hs)))"

definition find_inv :: "env \<Rightarrow> finder \<Rightarrow> bool" where
  "find_inv e st =
     (distinct (requested st) \<and> set (requested st) = visited st \<and>
      (\<Union>u\<in>visited st. finder_pdfs e u) = pdfs st)"

fun layer :: "env \<Rightarrow> crawler \<Rightarrow> nat \<Rightarrow> string list" where
  "layer e c 0 = [base_url c]"
| "layer e c (Suc k) = concat (map (\<lambda>u. fst (get_page_links e u c)) (layer e c k))"

definition page_pdfs :: "env \<Rightarrow> string \<Rightarrow> string set" where
  "page_pdfs e u =
     (case http_get e u of Raised \<Rightarrow> {}
      | Resp status hs \<Rightarrow> if raise_for_status status then {} else set (filter is_pdf (extracted hs)))"

definition same_config :: "crawler \<Rightarrow> crawler \<Rightarrow> bool" where
  "same_config s c = (base_url s = base_url c \<and> base_domain s = base_domain c \<and> max_depth s = max_depth c)"

definition reach_inv :: "env \<Rightarrow> crawler \<Rightarrow> crawler \<times> frontier \<Rightarrow> bool" where
  "reach_inv e c st =
     (same_config (fst st) c \<and>
      list_all (\<lambda>(u, d). 0 \<le> d \<and> u \<in> set (layer e c (nat d))) (snd st) \<and>
      list_all (\<lambda>u. \<exists>k. int k \<le> max_depth c \<and> u \<in> set (layer e c k)) (fetched (fst st)))"

definition pdf_inv :: "env \<Rightarrow> crawler \<Rightarrow> crawler \<times> frontier \<Rightarrow> bool" where
  "pdf_inv e c st =
     (same_config (fst st) c \<and>
      list_all (\<lambda>u. page_pdfs e u \<subseteq> pdf_urls (fst st)) (fetched (fst st)))"

definition scope_inv :: "crawler \<Rightarrow> crawler \<times> frontier \<Rightarrow> bool" where
  "scope_inv c st =
     (same_config (fst st) c \<and>
      visited_urls (fst st) \<subseteq> insert (base_url c) {l. \<not> is_pdf l \<and> is_valid_url c l \<and> CHR ''#'' \<notin> set l})"


text \<open>
  The pages that \<^verbatim>\<open>find_all_pdfs\<close> can reach from the start URL: the start URL, and every
  in-scope link of a reachable page.
\<close>

inductive_set finder_reachable :: "env \<Rightarrow> string \<Rightarrow> string set" for e :: env and url :: string where
  start: "url \<in> finder_reachable e url"
| link: "u \<in> finder_reachable e url \<Longrightarrow>
         l \<in> set (finder_links e (netloc (urlparse url)) (path (urlparse url)) u) \<Longrightarrow>
         l \<in> finder_reachable e url"

section \<open>Example webs\<close>

text \<open>
  Page \<open>a\<close> links to page \<open>a/b\<close> (twice, once with a fragment), to a PDF on another host and
  to a page on another host; page \<open>a/b\<close> links back to \<open>a\<close>, to a PDF and to page
  \<open>a/c\<close>, which links to one more PDF. Every other request raises.
\<close>

definition ex_get :: "string \<Rightarrow> response" where
  "ex_get url =
     (if url = ''http://ex.com/a'' then
        Resp 200 [Resolved ''http://ex.com/a/b'', Resolved ''http://ex.com/a/b#s'',
                  Resolved ''http://other.org/x.pdf'', Resolved ''http://other.org/y'']
      else if url = ''http://ex.com/a/b'' then
        Resp 200 [Resolved ''http://ex.com/a'', Resolved ''http://ex.com/a/c.PDF'',
                  Resolved ''http://ex.com/a/c'']
      else if url = ''http://ex.com/a/c'' then
        Resp 200 [Resolved ''http://ex.com/a/d.pdf'']
      else Raised)"

definition ex_env :: env where
  "ex_env = \<lparr>http_get = ex_get, set_order = (\<lambda>ls. ls)\<rparr>"

text \<open>A web of two pages: the root links to one page, which has no links.\<close>

definition two_pages :: env where
  "two_pages =
     \<lparr>http_get = (\<lambda>url. if url = ''http://ex.com/a'' then Resp 200 [Resolved ''http://ex.com/a/b'']
                        else if url = ''http://ex.com/a/b'' then Resp 200 []
                        else Raised),
      set_order = (\<lambda>ls. ls)\<rparr>"

text \<open>
  A page that links to itself. The server answers the same for the URL with and without a
  fragment, since a fragment is not part of a request.
\<close>

definition self_link :: env where
  "self_link =
     \<lparr>http_get = (\<lambda>url. if url = ''http://ex.com/a'' \<or> url = ''http://ex.com/a#top''
                        then Resp 200 [Resolved ''http://ex.com/a''] else Raised),
      set_order = (\<lambda>ls. ls)\<rparr>"

text \<open>A root that answers 404 with a body that links to a PDF.\<close>

definition not_found :: env where
  "not_found =
     \<lparr>http_get = (\<lambda>url. if url = ''http://ex.com/a''
                        then Resp 404 [Resolved ''http://ex.com/x.pdf''] else Raised),
      set_order = (\<lambda>ls. ls)\<rparr>"


section \<open>Lemmas\<close>

subsection \<open>The anchor pass of get\_page\_links\<close>

lemma set_set_add [simp]: "set (set_add x xs) = insert x (set xs)"
  by (auto simp: set_add_def)

lemma gpl_loop_fields:
  "get_page_links_loop hs ls s = (r, s') \<Longrightarrow>
     visited_urls s' = visited_urls s \<and> fetched s' = fetched s \<and> base_url s' = base_url s
     \<and> base_domain s' = base_domain s \<and> max_depth s' = max_depth s \<and> pdf_urls s \<subseteq> pdf_urls s'"
proof (induction hs ls s arbitrary: r s' rule: get_page_links_loop.induct)
  case (1 links self)
  then show ?case by simp
next
  case (2 hs links self)
  then show ?case by simp
next
  case (3 u hs links self)
  show ?case
  proof (cases "is_pdf (strip_fragment u)")
    case True
    with 3(1)[OF refl True, of r s'] 3(4) show ?thesis by (auto simp: Let_def)
  next
    case False
    note np = this
    show ?thesis
    proof (cases "is_valid_url self (strip_fragment u)")
      case True
      with 3(2)[OF refl np True, of r s'] 3(4) np show ?thesis by (simp add: Let_def)
    next
      case False
      with 3(3)[OF refl np False, of r s'] 3(4) np show ?thesis by (simp add: Let_def)
    qed
  qed
qed

lemma gpl_fields:
  assumes "get_page_links e url s = (ls, s')"
  shows "visited_urls s' = visited_urls s \<and> fetched s' = fetched s @ [url] \<and> base_url s' = base_url s
     \<and> base_domain s' = base_domain s \<and> max_depth s' = max_depth s \<and> pdf_urls s \<subseteq> pdf_urls s'"
proof (cases "http_get e url")
  case Raised
  with assms show ?thesis by (auto simp: get_page_links_def Let_def)
next
  case (Resp status hrefs)
  show ?thesis
  proof (cases "raise_for_status status")
    case True
    with Resp assms show ?thesis by (auto simp: get_page_links_def Let_def)
  next
    case False
    obtain r s2 where L: "get_page_links_loop hrefs [] (s\<lparr>fetched := fetched s @ [url]\<rparr>) = (r, s2)"
      by (cases "get_page_links_loop hrefs [] (s\<lparr>fetched := fetched s @ [url]\<rparr>)") auto
    from assms Resp False L have "s' = s2"
      by (auto simp: get_page_links_def Let_def split: option.splits)
    with gpl_loop_fields[OF L] show ?thesis by simp
  qed
qed

lemma add_links_eq:
  "add_links d ls (s, q) =
     (s\<lparr>visited_urls := visited_urls s \<union> set (new_links (visited_urls s) ls)\<rparr>,
      q @ map (\<lambda>l. (l, d + 1)) (new_links (visited_urls s) ls))"
proof (induction ls arbitrary: s q)
  case Nil
  show ?case by simp
next
  case (Cons l ls)
  show ?case
  proof (cases "l \<in> visited_urls s")
    case True
    then show ?thesis using Cons[of s q] by simp
  next
    case False
    then show ?thesis
      using Cons[of "s\<lparr>visited_urls := insert l (visited_urls s)\<rparr>" "q @ [(l, d + 1)]"] by simp
  qed
qed

lemma new_links_props:
  "distinct (new_links V ls) \<and> set (new_links V ls) \<inter> V = {} \<and> set (new_links V ls) \<subseteq> set ls"
  by (induction ls arbitrary: V) auto

subsection \<open>Iterations of crawl\<close>

lemma funpow_inv:
  assumes "P x" and "\<And>y. P y \<Longrightarrow> P (f y)"
  shows "P ((f ^^ n) x)"
  using assms by (induction n) auto

lemma crawl_step_skip:
  "d > max_depth s \<Longrightarrow> crawl_step e (s, (u, d) # q) = (s, q)"
  by simp

lemma crawl_step_fetch:
  assumes "\<not> d > max_depth s"
  obtains ls s1 where "get_page_links e u s = (ls, s1)"
    and "crawl_step e (s, (u, d) # q) =
      (s1\<lparr>visited_urls := visited_urls s \<union> set (new_links (visited_urls s) (set_order e ls))\<rparr>,
       q @ map (\<lambda>l. (l, d + 1)) (new_links (visited_urls s) (set_order e ls)))"
proof -
  obtain ls s1 where G: "get_page_links e u s = (ls, s1)"
    by (cases "get_page_links e u s") auto
  from gpl_fields[OF G] have V: "visited_urls s1 = visited_urls s" by simp
  from assms G have "crawl_step e (s, (u, d) # q) = add_links d (set_order e ls) (s1, q)" by simp
  with V have "crawl_step e (s, (u, d) # q) =
      (s1\<lparr>visited_urls := visited_urls s \<union> set (new_links (visited_urls s) (set_order e ls))\<rparr>,
       q @ map (\<lambda>l. (l, d + 1)) (new_links (visited_urls s) (set_order e ls)))"
    by (simp add: add_links_eq)
  with G that show thesis by blast
qed

lemma crawl_step_max_depth: "max_depth (fst (crawl_step e st)) = max_depth (fst st)"
proof (cases st)
  case (Pair s q)
  show ?thesis
  proof (cases q)
    case Nil
    with Pair show ?thesis by simp
  next
    case (Cons a q')
    obtain u d where a: "a = (u, d)" by (cases a)
    show ?thesis
    proof (cases "d > max_depth s")
      case True
      with Pair Cons a show ?thesis by simp
    next
      case False
      from crawl_step_fetch[OF False, of e u q'] obtain ls s1 where
        G: "get_page_links e u s = (ls, s1)" and
        S: "crawl_step e (s, (u, d) # q') =
          (s1\<lparr>visited_urls := visited_urls s \<union> set (new_links (visited_urls s) (set_order e ls))\<rparr>,
           q' @ map (\<lambda>l. (l, d + 1)) (new_links (visited_urls s) (set_order e ls)))" by blast
      from gpl_fields[OF G] S Pair Cons a show ?thesis by simp
    qed
  qed
qed

lemma crawl_step_decreases:
  assumes "snd st \<noteq> []"
  shows "(weight (crawl_step e st), weight st) \<in> mult1 {(x, y). x < y}"
proof -
  obtain s u d q where st: "st = (s, (u, d) # q)"
    using assms by (cases st; cases "snd st") auto
  let ?w = "\<lambda>(u::string, d). nat (max_depth s + 1 - d)"
  show ?thesis
  proof (cases "d > max_depth s")
    case True
    then have "weight (crawl_step e st) = mset (map ?w q) + {#}" "weight st = add_mset (?w (u, d)) (mset (map ?w q))"
      by (simp_all add: st weight_def)
    then show ?thesis by (intro mult1I[where K = "{#}"]) simp_all
  next
    case False
    from crawl_step_fetch[OF False, of e u q] obtain ls s1 where
      G: "get_page_links e u s = (ls, s1)" and
      S: "crawl_step e (s, (u, d) # q) =
        (s1\<lparr>visited_urls := visited_urls s \<union> set (new_links (visited_urls s) (set_order e ls))\<rparr>,
         q @ map (\<lambda>l. (l, d + 1)) (new_links (visited_urls s) (set_order e ls)))" by blast
    let ?N = "new_links (visited_urls s) (set_order e ls)"
    from gpl_fields[OF G] have M: "max_depth s1 = max_depth s" by simp
    have 1: "weight (crawl_step e st) = mset (map ?w q) + mset (map ?w (map (\<lambda>l. (l, d + 1)) ?N))"
      unfolding st S weight_def by (simp add: M)
    have 2: "weight st = add_mset (?w (u, d)) (mset (map ?w q))"
      by (simp add: st weight_def)
    have 3: "\<forall>b. b \<in># mset (map ?w (map (\<lambda>l. (l, d + 1)) ?N)) \<longrightarrow> (b, ?w (u, d)) \<in> {(x, y). x < y}"
      using False by auto
    show ?thesis unfolding 1 2 by (rule mult1I[OF refl refl]) (use 3 in blast)
  qed
qed

lemma crawl_step_empty: "snd st = [] \<Longrightarrow> crawl_step e st = st"
  by (cases st) simp

lemma crawl_iter_empties: "\<exists>n. snd ((crawl_step e ^^ n) st) = []"
proof -
  have wf: "wf (inv_image (mult1 {(x::nat, y). x < y}) weight)"
    by (intro wf_inv_image wf_mult1) (simp add: wf_less)
  show ?thesis
  proof (induction st rule: wf_induct_rule[OF wf])
    case (1 st)
    show ?case
    proof (cases "snd st = []")
      case True
      then have "snd ((crawl_step e ^^ 0) st) = []" by simp
      then show ?thesis by blast
    next
      case False
      from crawl_step_decreases[OF False] have "(crawl_step e st, st) \<in> inv_image (mult1 {(x, y). x < y}) weight"
        by simp
      from 1[OF this] obtain n where "snd ((crawl_step e ^^ n) (crawl_step e st)) = []" by blast
      then have "snd ((crawl_step e ^^ Suc n) st) = []" by (simp add: funpow_swap1)
      then show ?thesis by blast
    qed
  qed
qed

lemma crawl_loop_iter:
  "snd ((crawl_step e ^^ n) st) = [] \<Longrightarrow> crawl_loop e st = Some (fst ((crawl_step e ^^ n) st))"
proof (induction n arbitrary: st)
  case 0
  then show ?case by (simp add: crawl_loop.simps)
next
  case (Suc n)
  show ?case
  proof (cases "snd st = []")
    case True
    have "(crawl_step e ^^ m) st = st" for m
      by (induction m) (simp_all add: crawl_step_empty True)
    from this[of "Suc n"] True show ?thesis by (subst crawl_loop.simps) simp
  next
    case False
    from Suc.prems have "snd ((crawl_step e ^^ n) (crawl_step e st)) = []" by (simp add: funpow_swap1)
    from Suc.IH[OF this] have "crawl_loop e (crawl_step e st) = Some (fst ((crawl_step e ^^ Suc n) st))"
      by (simp add: funpow_swap1)
    with False show ?thesis by (subst crawl_loop.simps) simp
  qed
qed

lemma crawl_loop_result:
  "\<exists>n. snd ((crawl_step e ^^ n) st) = [] \<and> crawl_loop e st = Some (fst ((crawl_step e ^^ n) st))"
  using crawl_iter_empties crawl_loop_iter by blast

lemma crawl_step_cases [consumes 0, case_names empty skip fetch]:
  assumes "\<And>s. st = (s, []) \<Longrightarrow> crawl_step e st = st \<Longrightarrow> P"
    and "\<And>s u d q. st = (s, (u, d) # q) \<Longrightarrow> d > max_depth s \<Longrightarrow> crawl_step e st = (s, q) \<Longrightarrow> P"
    and "\<And>s u d q ls s1. st = (s, (u, d) # q) \<Longrightarrow> d \<le> max_depth s \<Longrightarrow>
           get_page_links e u s = (ls, s1) \<Longrightarrow>
           crawl_step e st =
             (s1\<lparr>visited_urls := visited_urls s \<union> set (new_links (visited_urls s) (set_order e ls))\<rparr>,
              q @ map (\<lambda>l. (l, d + 1)) (new_links (visited_urls s) (set_order e ls))) \<Longrightarrow> P"
  shows P
proof (cases st)
  case (Pair s q0)
  show ?thesis
  proof (cases q0)
    case Nil
    with Pair assms(1) show ?thesis by simp
  next
    case (Cons a q)
    obtain u d where a: "a = (u, d)" by (cases a)
    show ?thesis
    proof (cases "d > max_depth s")
      case True
      with Pair Cons a assms(2) show ?thesis by simp
    next
      case False
      from crawl_step_fetch[OF False, of e u q] obtain ls s1 where
        "get_page_links e u s = (ls, s1)"
        "crawl_step e (s, (u, d) # q) =
          (s1\<lparr>visited_urls := visited_urls s \<union> set (new_links (visited_urls s) (set_order e ls))\<rparr>,
           q @ map (\<lambda>l. (l, d + 1)) (new_links (visited_urls s) (set_order e ls)))" by blast
      with assms(3)[of s u d q ls s1] Pair Cons a False show ?thesis by simp
    qed
  qed
qed

lemma once_inv_step:
  assumes "once_inv st"
  shows "once_inv (crawl_step e st)"
proof (cases st rule: crawl_step_cases[where e = e])
  case (empty s)
  with assms show ?thesis by simp
next
  case (skip s u d q)
  with assms show ?thesis by (auto simp: once_inv_def)
next
  case (fetch s u d q ls s1)
  let ?N = "new_links (visited_urls s) (set_order e ls)"
  from gpl_fields[OF fetch(3)] have F: "fetched s1 = fetched s @ [u]" by simp
  from new_links_props[of "visited_urls s" "set_order e ls"]
  have N: "distinct ?N" "set ?N \<inter> visited_urls s = {}" by auto
  from assms fetch(1) have I: "distinct (map fst q)" "u \<notin> fst ` set q" "fst ` set q \<subseteq> visited_urls s"
    "u \<in> visited_urls s" "distinct (fetched s)" "set (fetched s) \<subseteq> visited_urls s"
    "set (fetched s) \<inter> fst ` set q = {}" "u \<notin> set (fetched s)"
    by (auto simp: once_inv_def)
  have m: "map fst (map (\<lambda>l. (l, d + 1)) ?N) = ?N" by (simp add: comp_def)
  have i: "fst ` set (map (\<lambda>l. (l, d + 1)) ?N) = set ?N" by (simp add: image_image)
  have 1: "distinct (map fst (q @ map (\<lambda>l. (l, d + 1)) ?N))"
    unfolding map_append m using I(1,3) N by auto
  have 2: "fst ` set (q @ map (\<lambda>l. (l, d + 1)) ?N) \<subseteq> visited_urls s \<union> set ?N"
    using I(3) i by auto
  have 3: "distinct (fetched s @ [u])" using I(5,8) by simp
  have 4: "set (fetched s @ [u]) \<subseteq> visited_urls s \<union> set ?N" using I(4,6) by auto
  have 5: "set (fetched s @ [u]) \<inter> fst ` set (q @ map (\<lambda>l. (l, d + 1)) ?N) = {}"
    using I(2,4,6,7) N(2) i by auto
  show ?thesis unfolding fetch(4) once_inv_def using 1 2 3 4 5 by (simp add: F)
qed

lemma once_inv_init: "once_inv (crawl_init (PDFCrawler url depth))"
  by (simp add: once_inv_def crawl_init_def PDFCrawler_def)

lemma depth_inv_step:
  assumes "depth_inv st"
  shows "depth_inv (crawl_step e st)"
proof (cases st rule: crawl_step_cases[where e = e])
  case (empty s)
  with assms show ?thesis by simp
next
  case (skip s u d q)
  with assms show ?thesis by (auto simp: depth_inv_def)
next
  case (fetch s u d q ls s1)
  from gpl_fields[OF fetch(3)] have M: "max_depth s1 = max_depth s" by simp
  from assms fetch(1) have "0 \<le> d" "list_all (\<lambda>(u, d). 0 \<le> d \<and> d \<le> max_depth s + 1) q"
    by (auto simp: depth_inv_def)
  with fetch(2) show ?thesis unfolding fetch(4) depth_inv_def
    by (auto simp: M list_all_iff)
qed

lemma depth_inv_init: "0 \<le> depth \<Longrightarrow> depth_inv (crawl_init (PDFCrawler url depth))"
  by (simp add: depth_inv_def crawl_init_def PDFCrawler_def)

lemma root_only_step:
  assumes "root_only st"
  shows "root_only (crawl_step e st)"
proof (cases st rule: crawl_step_cases[where e = e])
  case (empty s)
  with assms show ?thesis by simp
next
  case (skip s u d q)
  with assms show ?thesis by (auto simp: root_only_def)
next
  case (fetch s u d q ls s1)
  from gpl_fields[OF fetch(3)] have M: "max_depth s1 = max_depth s" "base_url s1 = base_url s"
    "fetched s1 = fetched s @ [u]" by simp_all
  from assms fetch(1,2) have "max_depth s = 0" "fetched s = []" "q = []" "u = base_url s" "d = 0"
    by (auto simp: root_only_def)
  then show ?thesis unfolding fetch(4) root_only_def
    by (simp add: M list_all_iff)
qed

lemma root_only_init: "root_only (crawl_init (PDFCrawler url 0))"
  by (simp add: root_only_def crawl_init_def PDFCrawler_def)

subsection \<open>Iterations of find\_all\_pdfs\<close>

lemma find_links_loop_eq:
  "find_links_loop bd bp hs st =
     st\<lparr>pdfs := pdfs st \<union> set (filter (\<lambda>l. endswith (lower l) ''.pdf'') (extracted hs)),
        queue := queue st @ filter (\<lambda>l. l \<notin> visited st) (filter (in_scope bd bp) (extracted hs))\<rparr>"
proof (induction bd bp hs st rule: find_links_loop.induct)
  case (1 bd bp st)
  show ?case by simp
next
  case (2 bd bp hs st)
  show ?case by simp
next
  case (3 bd bp u hs st)
  let ?l = "strip_fragment u"
  show ?case
  proof (cases "endswith (lower ?l) ''.pdf''")
    case True
    with 3(1)[OF refl refl True] show ?thesis by (simp add: Let_def in_scope_def)
  next
    case False
    note np = this
    show ?thesis
    proof (cases "netloc (urlparse ?l) = bd \<and> startswith (path (urlparse ?l)) bp \<and> ?l \<notin> visited st")
      case True
      with 3(2)[OF refl refl np True] np show ?thesis by (simp add: Let_def in_scope_def)
    next
      case False
      with 3(3)[OF refl refl np False] np show ?thesis by (auto simp: Let_def in_scope_def)
    qed
  qed
qed

lemma find_step_cases [consumes 0, case_names empty seen page]:
  assumes "queue st = [] \<Longrightarrow> find_step e bd bp st = st \<Longrightarrow> P"
    and "\<And>url rest. queue st = url # rest \<Longrightarrow> url \<in> visited st \<Longrightarrow>
           find_step e bd bp st = st\<lparr>queue := rest\<rparr> \<Longrightarrow> P"
    and "\<And>url rest. queue st = url # rest \<Longrightarrow> url \<notin> visited st \<Longrightarrow>
           find_step e bd bp st =
             st\<lparr>queue := rest @ filter (\<lambda>l. l \<notin> insert url (visited st)) (finder_links e bd bp url),
                visited := insert url (visited st),
                requested := requested st @ [url],
                pdfs := pdfs st \<union> finder_pdfs e url\<rparr> \<Longrightarrow> P"
  shows P
proof (cases "queue st")
  case Nil
  with assms(1) show ?thesis by (simp add: find_step_def)
next
  case (Cons url rest)
  show ?thesis
  proof (cases "url \<in> visited st")
    case True
    with Cons assms(2) show ?thesis by (simp add: find_step_def)
  next
    case False
    show ?thesis
    proof (cases "http_get e url")
      case Raised
      with Cons False have "find_step e bd bp st =
             st\<lparr>queue := rest @ filter (\<lambda>l. l \<notin> insert url (visited st)) (finder_links e bd bp url),
                visited := insert url (visited st),
                requested := requested st @ [url],
                pdfs := pdfs st \<union> finder_pdfs e url\<rparr>"
        by (simp add: find_step_def finder_links_def finder_pdfs_def)
      with assms(3) Cons False show ?thesis by blast
    next
      case (Resp status hs)
      with Cons False have "find_step e bd bp st =
             st\<lparr>queue := rest @ filter (\<lambda>l. l \<notin> insert url (visited st)) (finder_links e bd bp url),
                visited := insert url (visited st),
                requested := requested st @ [url],
                pdfs := pdfs st \<union> finder_pdfs e url\<rparr>"
        by (simp add: find_step_def finder_links_def finder_pdfs_def find_links_loop_eq)
      with assms(3) Cons False show ?thesis by blast
    qed
  qed
qed

lemma find_step_empty: "queue st = [] \<Longrightarrow> find_step e bd bp st = st"
  by (simp add: find_step_def)

lemma find_iter_empties:
  assumes fin: "finite U" and closed: "\<forall>u\<in>U. set (finder_links e bd bp u) \<subseteq> U"
  shows "set (queue st) \<subseteq> U \<Longrightarrow> \<exists>n. queue ((find_step e bd bp ^^ n) st) = []"
proof (induction st rule: wf_induct_rule[OF wf_inv_image[OF wf_lex_prod[OF wf_less_than wf_less_than],
          of "\<lambda>st. (card (U - visited st), length (queue st))"]])
  case (1 st)
  let ?m = "\<lambda>st. (card (U - visited st), length (queue st))"
  have step: "\<exists>n. queue ((find_step e bd bp ^^ n) st) = []"
    if lt: "(?m (find_step e bd bp st), ?m st) \<in> less_than <*lex*> less_than"
      and sub: "set (queue (find_step e bd bp st)) \<subseteq> U"
  proof -
    from lt have "(find_step e bd bp st, st) \<in> inv_image (less_than <*lex*> less_than) ?m"
      by simp
    from 1(1)[OF this sub] obtain n where "queue ((find_step e bd bp ^^ n) (find_step e bd bp st)) = []"
      by blast
    then have "queue ((find_step e bd bp ^^ Suc n) st) = []" by (simp add: funpow_swap1)
    then show ?thesis by blast
  qed
  show ?case
  proof (cases rule: find_step_cases[of st e bd bp])
    case empty
    then have "queue ((find_step e bd bp ^^ 0) st) = []" by simp
    then show ?thesis by blast
  next
    case (seen url rest)
    show ?thesis
    proof (rule step)
      show "(?m (find_step e bd bp st), ?m st) \<in> less_than <*lex*> less_than"
        using seen by simp
      show "set (queue (find_step e bd bp st)) \<subseteq> U" using seen 1(2) by auto
    qed
  next
    case (page url rest)
    from page(1) 1(2) have uU: "url \<in> U" by auto
    show ?thesis
    proof (rule step)
      have "U - insert url (visited st) \<subset> U - visited st" using uU page(2) by auto
      then have "card (U - insert url (visited st)) < card (U - visited st)"
        using fin by (intro psubset_card_mono) auto
      then show "(?m (find_step e bd bp st), ?m st) \<in> less_than <*lex*> less_than"
        unfolding page(3) by simp
      show "set (queue (find_step e bd bp st)) \<subseteq> U"
        unfolding page(3) using page(1) 1(2) closed uU by auto
    qed
  qed
qed

lemma find_loop_iter:
  "queue ((find_step e bd bp ^^ n) st) = [] \<Longrightarrow>
     find_loop e bd bp st =
       Some (pdfs ((find_step e bd bp ^^ n) st), visited ((find_step e bd bp ^^ n) st))"
proof (induction n arbitrary: st)
  case 0
  then show ?case by (simp add: find_loop.simps)
next
  case (Suc n)
  show ?case
  proof (cases "queue st = []")
    case True
    have "(find_step e bd bp ^^ m) st = st" for m
      by (induction m) (simp_all add: find_step_empty True)
    from this[of "Suc n"] True show ?thesis by (subst find_loop.simps) simp
  next
    case False
    from Suc.prems have "queue ((find_step e bd bp ^^ n) (find_step e bd bp st)) = []"
      by (simp add: funpow_swap1)
    from Suc.IH[OF this] have "find_loop e bd bp (find_step e bd bp st) =
        Some (pdfs ((find_step e bd bp ^^ Suc n) st), visited ((find_step e bd bp ^^ Suc n) st))"
      by (simp add: funpow_swap1)
    with False show ?thesis by (subst find_loop.simps) simp
  qed
qed

lemma find_loop_Some:
  assumes "find_loop e bd bp st = Some r"
  shows "\<exists>n. queue ((find_step e bd bp ^^ n) st) = [] \<and>
         r = (pdfs ((find_step e bd bp ^^ n) st), visited ((find_step e bd bp ^^ n) st))"
proof (rule find_loop.raw_induct[where P = "\<lambda>e bd bp st r.
         \<exists>n. queue ((find_step e bd bp ^^ n) st) = [] \<and>
         r = (pdfs ((find_step e bd bp ^^ n) st), visited ((find_step e bd bp ^^ n) st))", OF _ assms])
  fix f :: "env \<Rightarrow> string \<Rightarrow> string \<Rightarrow> finder \<Rightarrow> (string set \<times> string set) option"
  fix e bd bp st r
  assume IH: "\<And>e bd bp st r. f e bd bp st = Some r \<Longrightarrow>
         \<exists>n. queue ((find_step e bd bp ^^ n) st) = [] \<and>
         r = (pdfs ((find_step e bd bp ^^ n) st), visited ((find_step e bd bp ^^ n) st))"
  assume eq: "(if queue st = [] then Some (pdfs st, visited st)
               else f e bd bp (find_step e bd bp st)) = Some r"
  show "\<exists>n. queue ((find_step e bd bp ^^ n) st) = [] \<and>
         r = (pdfs ((find_step e bd bp ^^ n) st), visited ((find_step e bd bp ^^ n) st))"
  proof (cases "queue st = []")
    case True
    with eq have "queue ((find_step e bd bp ^^ 0) st) = [] \<and>
         r = (pdfs ((find_step e bd bp ^^ 0) st), visited ((find_step e bd bp ^^ 0) st))" by auto
    then show ?thesis by blast
  next
    case False
    with eq have "f e bd bp (find_step e bd bp st) = Some r" by simp
    from IH[OF this] obtain n where
      "queue ((find_step e bd bp ^^ n) (find_step e bd bp st)) = [] \<and>
         r = (pdfs ((find_step e bd bp ^^ n) (find_step e bd bp st)),
              visited ((find_step e bd bp ^^ n) (find_step e bd bp st)))" by blast
    then have "queue ((find_step e bd bp ^^ Suc n) st) = [] \<and>
         r = (pdfs ((find_step e bd bp ^^ Suc n) st), visited ((find_step e bd bp ^^ Suc n) st))"
      by (simp add: funpow_swap1)
    then show ?thesis by blast
  qed
qed

lemma find_inv_step:
  assumes "find_inv e st"
  shows "find_inv e (find_step e bd bp st)"
proof (cases rule: find_step_cases[of st e bd bp])
  case empty
  with assms show ?thesis by simp
next
  case (seen url rest)
  with assms show ?thesis by (simp add: find_inv_def)
next
  case (page url rest)
  with assms show ?thesis unfolding page(3) find_inv_def by auto
qed

lemma find_inv_init: "find_inv e (find_init url)"
  by (simp add: find_inv_def find_init_def)

subsection \<open>The links and the PDFs of a page\<close>

lemma is_valid_url_config:
  "base_url s = base_url c \<Longrightarrow> base_domain s = base_domain c \<Longrightarrow> is_valid_url s l = is_valid_url c l"
  by (simp add: is_valid_url_def)

lemma gpl_loop_eq:
  "get_page_links_loop hs ls s =
     (fst (get_page_links_loop hs ls s), s\<lparr>pdf_urls := pdf_urls s \<union> set (filter is_pdf (extracted hs))\<rparr>)"
proof (induction hs ls s rule: get_page_links_loop.induct)
  case (1 links self)
  show ?case by simp
next
  case (2 hs links self)
  show ?case by simp
next
  case (3 u hs links self)
  let ?l = "strip_fragment u"
  show ?case
  proof (cases "is_pdf ?l")
    case True
    have "get_page_links_loop (Resolved u # hs) links self =
       get_page_links_loop hs links (self\<lparr>pdf_urls := insert ?l (pdf_urls self)\<rparr>)"
      using True by (simp add: Let_def)
    also have "\<dots> = (fst (get_page_links_loop hs links (self\<lparr>pdf_urls := insert ?l (pdf_urls self)\<rparr>)),
        self\<lparr>pdf_urls := pdf_urls self \<union> set (filter is_pdf (extracted (Resolved u # hs)))\<rparr>)"
      by (subst 3(1)[OF refl True]) (simp add: True)
    finally show ?thesis by simp
  next
    case False
    note np = this
    show ?thesis
    proof (cases "is_valid_url self ?l")
      case True
      have "get_page_links_loop (Resolved u # hs) links self =
         get_page_links_loop hs (set_add ?l links) self"
        using True np by (simp add: Let_def)
      also have "\<dots> = (fst (get_page_links_loop hs (set_add ?l links) self),
        self\<lparr>pdf_urls := pdf_urls self \<union> set (filter is_pdf (extracted (Resolved u # hs)))\<rparr>)"
        by (subst 3(2)[OF refl np True]) (simp add: np)
      finally show ?thesis by simp
    next
      case False
      have "get_page_links_loop (Resolved u # hs) links self = get_page_links_loop hs links self"
        using False np by (simp add: Let_def)
      also have "\<dots> = (fst (get_page_links_loop hs links self),
        self\<lparr>pdf_urls := pdf_urls self \<union> set (filter is_pdf (extracted (Resolved u # hs)))\<rparr>)"
        by (subst 3(3)[OF refl np False]) (simp add: np)
      finally show ?thesis by simp
    qed
  qed
qed

lemma gpl_loop_links_config:
  "base_url s = base_url c \<Longrightarrow> base_domain s = base_domain c \<Longrightarrow>
     fst (get_page_links_loop hs ls s) = fst (get_page_links_loop hs ls c)"
proof (induction hs ls s arbitrary: c rule: get_page_links_loop.induct)
  case (1 links self)
  show ?case by simp
next
  case (2 hs links self)
  show ?case by simp
next
  case (3 u hs links self)
  let ?l = "strip_fragment u"
  from 3(4,5) have V: "is_valid_url self ?l = is_valid_url c ?l" by (rule is_valid_url_config)
  show ?case
  proof (cases "is_pdf ?l")
    case True
    from 3(1)[OF refl True, of "c\<lparr>pdf_urls := insert ?l (pdf_urls c)\<rparr>"] 3(4,5) True
    show ?thesis by (simp add: Let_def)
  next
    case False
    note np = this
    show ?thesis
    proof (cases "is_valid_url self ?l")
      case True
      from 3(2)[OF refl np True, of c] 3(4,5) np True V show ?thesis by (simp add: Let_def)
    next
      case False
      from 3(3)[OF refl np False, of c] 3(4,5) np False V show ?thesis by (simp add: Let_def)
    qed
  qed
qed

lemma gpl_loop_links_valid:
  "get_page_links_loop hs ls s = (Some r, s') \<Longrightarrow>
     set r \<subseteq> set ls \<union> {l. \<not> is_pdf l \<and> is_valid_url s l \<and> CHR ''#'' \<notin> set l}"
proof (induction hs ls s arbitrary: r s' rule: get_page_links_loop.induct)
  case (1 links self)
  then show ?case by auto
next
  case (2 hs links self)
  then show ?case by simp
next
  case (3 u hs links self)
  let ?l = "strip_fragment u"
  have nf: "CHR ''#'' \<notin> set ?l"
    unfolding strip_fragment_def split_first_def by (auto dest: set_takeWhileD)
  show ?case
  proof (cases "is_pdf ?l")
    case True
    with 3(4) have "get_page_links_loop hs links (self\<lparr>pdf_urls := insert ?l (pdf_urls self)\<rparr>) = (Some r, s')"
      by (simp add: Let_def)
    from 3(1)[OF refl True this]
      is_valid_url_config[of "self\<lparr>pdf_urls := insert ?l (pdf_urls self)\<rparr>" self]
    show ?thesis by simp
  next
    case False
    note np = this
    show ?thesis
    proof (cases "is_valid_url self ?l")
      case True
      with 3(4) np have "get_page_links_loop hs (set_add ?l links) self = (Some r, s')"
        by (simp add: Let_def)
      from 3(2)[OF refl np True this] np True nf show ?thesis by auto
    next
      case False
      with 3(4) np have "get_page_links_loop hs links self = (Some r, s')"
        by (simp add: Let_def)
      from 3(3)[OF refl np False this] show ?thesis by simp
    qed
  qed
qed

lemma gpl_pdfs:
  assumes "get_page_links e u s = (ls, s1)"
  shows "pdf_urls s1 = pdf_urls s \<union> page_pdfs e u"
proof (cases "http_get e u")
  case Raised
  with assms show ?thesis by (auto simp: get_page_links_def Let_def page_pdfs_def)
next
  case (Resp status hrefs)
  show ?thesis
  proof (cases "raise_for_status status")
    case True
    with Resp assms show ?thesis by (auto simp: get_page_links_def Let_def page_pdfs_def)
  next
    case False
    let ?s0 = "s\<lparr>fetched := fetched s @ [u]\<rparr>"
    obtain r s2 where L: "get_page_links_loop hrefs [] ?s0 = (r, s2)"
      by (cases "get_page_links_loop hrefs [] ?s0") auto
    from assms Resp False L have "s1 = s2"
      by (auto simp: get_page_links_def Let_def split: option.splits)
    moreover from L gpl_loop_eq[of hrefs "[]" ?s0]
    have "s2 = ?s0\<lparr>pdf_urls := pdf_urls ?s0 \<union> set (filter is_pdf (extracted hrefs))\<rparr>" by simp
    ultimately show ?thesis using Resp False by (simp add: page_pdfs_def)
  qed
qed

lemma gpl_links_config:
  assumes "same_config s c"
  shows "fst (get_page_links e u s) = fst (get_page_links e u c)"
proof (cases "http_get e u")
  case Raised
  then show ?thesis by (simp add: get_page_links_def Let_def)
next
  case (Resp status hrefs)
  show ?thesis
  proof (cases "raise_for_status status")
    case True
    with Resp show ?thesis by (simp add: get_page_links_def Let_def)
  next
    case False
    let ?s0 = "s\<lparr>fetched := fetched s @ [u]\<rparr>" and ?c0 = "c\<lparr>fetched := fetched c @ [u]\<rparr>"
    from assms have "fst (get_page_links_loop hrefs [] ?s0) = fst (get_page_links_loop hrefs [] ?c0)"
      by (intro gpl_loop_links_config) (simp_all add: same_config_def)
    moreover have "fst (get_page_links e u x) =
        (case fst (get_page_links_loop hrefs [] (x\<lparr>fetched := fetched x @ [u]\<rparr>)) of
           None \<Rightarrow> [] | Some links \<Rightarrow> links)" for x
      using Resp False
      by (cases "get_page_links_loop hrefs [] (x\<lparr>fetched := fetched x @ [u]\<rparr>)")
         (simp add: get_page_links_def Let_def split: option.splits)
    ultimately show ?thesis by simp
  qed
qed

lemma gpl_links_valid:
  assumes "get_page_links e u s = (ls, s1)"
  shows "set ls \<subseteq> {l. \<not> is_pdf l \<and> is_valid_url s l \<and> CHR ''#'' \<notin> set l}"
proof (cases "http_get e u")
  case Raised
  with assms show ?thesis by (auto simp: get_page_links_def Let_def)
next
  case (Resp status hrefs)
  show ?thesis
  proof (cases "raise_for_status status")
    case True
    with Resp assms show ?thesis by (auto simp: get_page_links_def Let_def)
  next
    case False
    let ?s0 = "s\<lparr>fetched := fetched s @ [u]\<rparr>"
    obtain r s2 where L: "get_page_links_loop hrefs [] ?s0 = (r, s2)"
      by (cases "get_page_links_loop hrefs [] ?s0") auto
    show ?thesis
    proof (cases r)
      case None
      with assms Resp False L have "ls = []" by (auto simp: get_page_links_def Let_def)
      then show ?thesis by simp
    next
      case (Some links)
      with assms Resp False L have "ls = links" by (auto simp: get_page_links_def Let_def)
      with gpl_loop_links_valid[OF L[unfolded Some]] is_valid_url_config[of ?s0 s]
      show ?thesis by simp
    qed
  qed
qed

lemma same_config_step:
  assumes "same_config (fst st) c"
  shows "same_config (fst (crawl_step e st)) c"
proof (cases st rule: crawl_step_cases[where e = e])
  case (empty s)
  with assms show ?thesis by simp
next
  case (skip s u d q)
  with assms show ?thesis by simp
next
  case (fetch s u d q ls s1)
  from gpl_fields[OF fetch(3)] assms fetch(1) show ?thesis
    unfolding fetch(4) by (simp add: same_config_def)
qed

lemma pdf_inv_step:
  assumes "pdf_inv e c st"
  shows "pdf_inv e c (crawl_step e st)"
proof (cases st rule: crawl_step_cases[where e = e])
  case (empty s)
  with assms show ?thesis by simp
next
  case (skip s u d q)
  with assms show ?thesis by (simp add: pdf_inv_def)
next
  case (fetch s u d q ls s1)
  from assms have C: "same_config (fst (crawl_step e st)) c"
    by (intro same_config_step) (simp add: pdf_inv_def)
  from assms fetch(1) have I: "\<forall>x\<in>set (fetched s). page_pdfs e x \<subseteq> pdf_urls s"
    by (simp add: pdf_inv_def list_all_iff)
  from gpl_fields[OF fetch(3)] gpl_pdfs[OF fetch(3)]
  have "fetched s1 = fetched s @ [u]" "pdf_urls s1 = pdf_urls s \<union> page_pdfs e u" by simp_all
  with I have "\<forall>x\<in>set (fetched s1). page_pdfs e x \<subseteq> pdf_urls s1" by auto
  with C show ?thesis unfolding pdf_inv_def fetch(4) by (simp add: list_all_iff)
qed

lemma pdf_inv_init: "pdf_inv e (PDFCrawler url depth) (crawl_init (PDFCrawler url depth))"
  by (simp add: pdf_inv_def crawl_init_def same_config_def PDFCrawler_def)

lemma scope_inv_step:
  assumes perm: "\<forall>ls. set (set_order e ls) = set ls" and "scope_inv c st"
  shows "scope_inv c (crawl_step e st)"
proof (cases st rule: crawl_step_cases[where e = e])
  case (empty s)
  with assms show ?thesis by simp
next
  case (skip s u d q)
  with assms show ?thesis by (simp add: scope_inv_def)
next
  case (fetch s u d q ls s1)
  let ?N = "new_links (visited_urls s) (set_order e ls)"
  from assms(2) have C: "same_config (fst (crawl_step e st)) c"
    by (intro same_config_step) (simp add: scope_inv_def)
  from assms(2) fetch(1) have S: "same_config s c"
    and V: "visited_urls s \<subseteq> insert (base_url c) {l. \<not> is_pdf l \<and> is_valid_url c l \<and> CHR ''#'' \<notin> set l}"
    by (simp_all add: scope_inv_def)
  from S have "is_valid_url s l = is_valid_url c l" for l
    by (intro is_valid_url_config) (simp_all add: same_config_def)
  with gpl_links_valid[OF fetch(3)]
  have "set ls \<subseteq> {l. \<not> is_pdf l \<and> is_valid_url c l \<and> CHR ''#'' \<notin> set l}" by simp
  moreover from new_links_props[of "visited_urls s" "set_order e ls"] perm
  have "set ?N \<subseteq> set ls" by simp
  ultimately have "visited_urls s \<union> set ?N
      \<subseteq> insert (base_url c) {l. \<not> is_pdf l \<and> is_valid_url c l \<and> CHR ''#'' \<notin> set l}"
    using V by blast
  with C show ?thesis unfolding scope_inv_def fetch(4) by simp
qed

lemma scope_inv_init: "scope_inv (PDFCrawler url depth) (crawl_init (PDFCrawler url depth))"
  by (simp add: scope_inv_def crawl_init_def same_config_def PDFCrawler_def)

lemma reach_inv_step:
  assumes perm: "\<forall>ls. set (set_order e ls) = set ls" and "reach_inv e c st"
  shows "reach_inv e c (crawl_step e st)"
proof (cases st rule: crawl_step_cases[where e = e])
  case (empty s)
  with assms show ?thesis by simp
next
  case (skip s u d q)
  with assms show ?thesis by (simp add: reach_inv_def)
next
  case (fetch s u d q ls s1)
  let ?N = "new_links (visited_urls s) (set_order e ls)"
  from assms(2) have C: "same_config (fst (crawl_step e st)) c"
    by (intro same_config_step) (simp add: reach_inv_def)
  from assms(2) fetch(1) have S: "same_config s c"
    and d: "0 \<le> d" "u \<in> set (layer e c (nat d))"
    and Q: "\<forall>(v, k)\<in>set q. 0 \<le> k \<and> v \<in> set (layer e c (nat k))"
    and F: "\<forall>v\<in>set (fetched s). \<exists>k. int k \<le> max_depth c \<and> v \<in> set (layer e c k)"
    by (simp_all add: reach_inv_def list_all_iff)
  from S fetch(2) have dm: "d \<le> max_depth c" by (simp add: same_config_def)
  from gpl_links_config[OF S, of e u] fetch(3) have ls: "ls = fst (get_page_links e u c)" by simp
  from new_links_props[of "visited_urls s" "set_order e ls"] perm
  have N: "set ?N \<subseteq> set ls" by simp
  have nd: "nat (d + 1) = Suc (nat d)" using d(1) by simp
  have "v \<in> set (layer e c (nat (d + 1)))" if "v \<in> set ?N" for v
    using that N d(2) unfolding nd ls by auto
  with Q d(1) have Q': "\<forall>(v, k)\<in>set (q @ map (\<lambda>l. (l, d + 1)) ?N). 0 \<le> k \<and> v \<in> set (layer e c (nat k))"
    by auto
  from d dm have "\<exists>k. int k \<le> max_depth c \<and> u \<in> set (layer e c k)"
    by (intro exI[of _ "nat d"]) simp
  with F gpl_fields[OF fetch(3)]
  have F': "\<forall>v\<in>set (fetched s1). \<exists>k. int k \<le> max_depth c \<and> v \<in> set (layer e c k)" by auto
  from C Q' F' show ?thesis unfolding reach_inv_def fetch(4) by (simp add: list_all_iff)
qed

lemma reach_inv_init: "reach_inv e (PDFCrawler url depth) (crawl_init (PDFCrawler url depth))"
  by (simp add: reach_inv_def crawl_init_def same_config_def PDFCrawler_def)

subsection \<open>Invariants at the end of a crawl\<close>

lemma visited_finite_step:
  assumes "finite (visited_urls (fst st))"
  shows "finite (visited_urls (fst (crawl_step e st)))"
proof (cases st rule: crawl_step_cases[where e = e])
  case (empty s)
  with assms show ?thesis by simp
next
  case (skip s u d q)
  with assms show ?thesis by simp
next
  case (fetch s u d q ls s1)
  with assms show ?thesis unfolding fetch(4) by simp
qed

lemma crawl_final:
  assumes "P (crawl_init c)" and "\<And>st. P st \<Longrightarrow> P (crawl_step e st)"
  shows "\<exists>s. crawl e c = Some s \<and> P (s, [])"
proof -
  from crawl_loop_result[of e "crawl_init c"] obtain n where
    n: "snd ((crawl_step e ^^ n) (crawl_init c)) = []"
       "crawl_loop e (crawl_init c) = Some (fst ((crawl_step e ^^ n) (crawl_init c)))"
    by blast
  have "P ((crawl_step e ^^ n) (crawl_init c))"
    by (rule funpow_inv[where P = P]) (rule assms(1), rule assms(2))
  moreover from n(1) have "(crawl_step e ^^ n) (crawl_init c) =
      (fst ((crawl_step e ^^ n) (crawl_init c)), [])"
    by (metis prod.collapse)
  ultimately have "P (fst ((crawl_step e ^^ n) (crawl_init c)), [])" by simp
  with n(2) show ?thesis by (simp add: crawl_def)
qed

lemma find_final:
  assumes "find_all_pdfs e url = Some (P, V)"
  shows "(\<Union>u\<in>V. finder_pdfs e u) = P"
proof -
  let ?bd = "netloc (urlparse url)" and ?bp = "path (urlparse url)"
  from assms find_loop_Some[of e ?bd ?bp "find_init url" "(P, V)"] obtain n where
    n: "P = pdfs ((find_step e ?bd ?bp ^^ n) (find_init url))"
       "V = visited ((find_step e ?bd ?bp ^^ n) (find_init url))"
    by (auto simp: find_all_pdfs_def)
  have "find_inv e ((find_step e ?bd ?bp ^^ n) (find_init url))"
    by (rule funpow_inv[where P = "find_inv e"]) (rule find_inv_init, rule find_inv_step)
  with n show ?thesis by (simp add: find_inv_def)
qed

subsection \<open>Suffixes and the path of a URL\<close>







subsection \<open>Fragments and failed requests\<close>

lemma strip_fragment_append:
  "CHR ''#'' \<notin> set u \<Longrightarrow> strip_fragment (u @ CHR ''#'' # a) = u"
  by (auto simp: strip_fragment_def split_first_def takeWhile_append)

lemma strip_fragment_plain: "CHR ''#'' \<notin> set u \<Longrightarrow> strip_fragment u = u"
  by (auto simp: strip_fragment_def split_first_def)

lemma link_fragment_invariant:
  assumes "CHR ''#'' \<notin> set u"
  shows "get_page_links_loop (Resolved (u @ CHR ''#'' # a) # hs) ls s =
           get_page_links_loop (Resolved u # hs) ls s"
    and "find_links_loop bd bp (Resolved (u @ CHR ''#'' # a) # hs) st =
           find_links_loop bd bp (Resolved u # hs) st"
  using assms by (simp_all add: strip_fragment_append strip_fragment_plain)

lemma crawl_root_failure:
  assumes "http_get e url = Raised \<or> (\<exists>status hs. http_get e url = Resp status hs \<and> raise_for_status status)"
    and "0 \<le> depth" and "set_order e [] = []"
  shows "crawl e (PDFCrawler url depth) =
           Some ((PDFCrawler url depth)\<lparr>visited_urls := {url}, fetched := [url]\<rparr>)"
proof -
  let ?c = "PDFCrawler url depth"
  let ?s = "?c\<lparr>visited_urls := {url}\<rparr>"
  have g: "get_page_links e url ?s = ([], ?s\<lparr>fetched := [url]\<rparr>)"
    using assms(1) by (auto simp: get_page_links_def Let_def PDFCrawler_def)
  have i: "crawl_init ?c = (?s, [(url, 0)])" by (simp add: crawl_init_def PDFCrawler_def)
  have "crawl_step e (crawl_init ?c) = (?s\<lparr>fetched := [url]\<rparr>, [])"
    unfolding i using g assms(2,3) by (simp add: PDFCrawler_def)
  then have "snd ((crawl_step e ^^ 1) (crawl_init ?c)) = []"
    "fst ((crawl_step e ^^ 1) (crawl_init ?c)) = ?s\<lparr>fetched := [url]\<rparr>" by simp_all
  with crawl_loop_iter[where e = e and n = 1 and st = "crawl_init ?c"] show ?thesis by (simp add: crawl_def)
qed

lemma find_root_failure:
  assumes "http_get e url = Raised"
  shows "find_all_pdfs e url = Some ({}, {url})"
proof -
  let ?bd = "netloc (urlparse url)" and ?bp = "path (urlparse url)"
  have "find_step e ?bd ?bp (find_init url) =
      \<lparr>visited = {url}, pdfs = {}, queue = [], requested = [url]\<rparr>"
    using assms by (simp add: find_step_def find_init_def)
  then have "queue ((find_step e ?bd ?bp ^^ 1) (find_init url)) = []"
    "pdfs ((find_step e ?bd ?bp ^^ 1) (find_init url)) = {}"
    "visited ((find_step e ?bd ?bp ^^ 1) (find_init url)) = {url}" by simp_all
  with find_loop_iter[where e = e and bd = ?bd and bp = ?bp and n = 1 and st = "find_init url"] show ?thesis by (simp add: find_all_pdfs_def)
qed

lemma crawl_step_failure:
  assumes "http_get e u = Raised \<or> (\<exists>status hs. http_get e u = Resp status hs \<and> raise_for_status status)"
    and "d \<le> max_depth s" and "set_order e [] = []"
  shows "crawl_step e (s, (u, d) # q) = (s\<lparr>fetched := fetched s @ [u]\<rparr>, q)"
proof -
  have "get_page_links e u s = ([], s\<lparr>fetched := fetched s @ [u]\<rparr>)"
    using assms(1) by (auto simp: get_page_links_def Let_def)
  with assms(2,3) show ?thesis by simp
qed

subsection \<open>Downloads\<close>









subsection \<open>URLs without a fragment\<close>






subsection \<open>Reachable pages\<close>

lemma finder_reachable_subset:
  assumes "url \<in> U"
    and "\<forall>u\<in>U. set (finder_links e (netloc (urlparse url)) (path (urlparse url)) u) \<subseteq> U"
  shows "finder_reachable e url \<subseteq> U"
proof
  fix x assume "x \<in> finder_reachable e url"
  then show "x \<in> U"
  proof (induction rule: finder_reachable.induct)
    case start
    show ?case by (rule assms(1))
  next
    case (link u l)
    with assms(2) show ?case by blast
  qed
qed

section \<open>Termination\<close>

text \<open>
  Claim C1. A crawl run terminates. For \<^verbatim>\<open>PDFCrawler.crawl\<close> this holds on every web and for
  every \<^verbatim>\<open>max_depth\<close>: after finitely many iterations the frontier is empty and the loop
  returns. For \<^verbatim>\<open>find_all_pdfs\<close> it holds whenever finitely many pages are reachable from
  the start URL.
\<close>

theorem crawl_terminates:
  "(\<exists>n s. (crawl_step e ^^ n) (crawl_init (PDFCrawler url depth)) = (s, []) \<and>
           crawl e (PDFCrawler url depth) = Some s) \<and>
   (finite (finder_reachable e url) \<longrightarrow>
      (\<exists>n r. queue ((find_step e (netloc (urlparse url)) (path (urlparse url)) ^^ n)
                      (find_init url)) = [] \<and>
              find_all_pdfs e url = Some r))"
proof (intro conjI impI)
  from crawl_loop_result[of e "crawl_init (PDFCrawler url depth)"] obtain n where
    n: "snd ((crawl_step e ^^ n) (crawl_init (PDFCrawler url depth))) = []"
       "crawl_loop e (crawl_init (PDFCrawler url depth)) =
          Some (fst ((crawl_step e ^^ n) (crawl_init (PDFCrawler url depth))))"
    by blast
  from n(1) have "(crawl_step e ^^ n) (crawl_init (PDFCrawler url depth)) =
      (fst ((crawl_step e ^^ n) (crawl_init (PDFCrawler url depth))), [])"
    by (metis prod.collapse)
  with n(2) show "\<exists>n s. (crawl_step e ^^ n) (crawl_init (PDFCrawler url depth)) = (s, []) \<and>
                 crawl e (PDFCrawler url depth) = Some s"
    unfolding crawl_def by blast
next
  let ?bd = "netloc (urlparse url)" and ?bp = "path (urlparse url)"
  let ?U = "finder_reachable e url"
  assume fin: "finite ?U"
  have closed: "\<forall>u\<in>?U. set (finder_links e ?bd ?bp u) \<subseteq> ?U"
    by (auto intro: finder_reachable.link)
  have "set (queue (find_init url)) \<subseteq> ?U"
    by (simp add: find_init_def finder_reachable.start)
  from find_iter_empties[OF fin closed this] obtain n where
    n: "queue ((find_step e ?bd ?bp ^^ n) (find_init url)) = []" by blast
  from find_loop_iter[OF n] n
  show "\<exists>n r. queue ((find_step e ?bd ?bp ^^ n) (find_init url)) = [] \<and> find_all_pdfs e url = Some r"
    unfolding find_all_pdfs_def by blast
qed

theorem crawl_terminates_witness:
  "finite (finder_reachable ex_env ''http://ex.com/a'') \<and>
   (\<exists>s. crawl ex_env (PDFCrawler ''http://ex.com/a'' 1) = Some s) \<and>
   (\<exists>r. find_all_pdfs ex_env ''http://ex.com/a'' = Some r)"
proof -
  let ?U = "{''http://ex.com/a'', ''http://ex.com/a/b'', ''http://ex.com/a/c''}"
  have 1: "''http://ex.com/a'' \<in> ?U" by simp
  have 2: "\<forall>u\<in>?U. set (finder_links ex_env (netloc (urlparse ''http://ex.com/a''))
              (path (urlparse ''http://ex.com/a'')) u) \<subseteq> ?U"
    by code_simp
  from finder_reachable_subset[OF 1 2] have fin: "finite (finder_reachable ex_env ''http://ex.com/a'')"
    by (rule finite_subset) simp
  from crawl_terminates[where e = ex_env and url = "''http://ex.com/a''" and depth = 1] fin
  show ?thesis by blast
qed

section \<open>Each URL is fetched at most once\<close>



section \<open>The depth bound\<close>

text \<open>
  Claim C3. With \<^verbatim>\<open>max_depth = 0\<close> the run requests exactly one page, the root, whatever
  the web. For every \<^verbatim>\<open>max_depth\<close>, a URL that no chain of at most \<^verbatim>\<open>max_depth\<close> links
  connects to the root (\<open>layer e c k\<close> lists the URLs that chains of \<open>k\<close> links reach) is not
  requested at any point of the run. The second part needs that iterating over a set visits
  exactly its elements.
\<close>

theorem depth_boundary:
  "(\<exists>s. crawl e (PDFCrawler url 0) = Some s \<and> fetched s = [url]) \<and>
   ((\<forall>ls. set (set_order e ls) = set ls) \<and>
    (\<forall>k. int k \<le> depth \<longrightarrow> u \<notin> set (layer e (PDFCrawler url depth) k)) \<longrightarrow>
      u \<notin> set (fetched (fst ((crawl_step e ^^ n) (crawl_init (PDFCrawler url depth))))))"
proof (intro conjI impI)
  from crawl_final[where P = root_only, OF root_only_init root_only_step, of e url]
  obtain s where s: "crawl e (PDFCrawler url 0) = Some s" "root_only (s, [])" by blast
  from s(2) have "base_url s = url \<Longrightarrow> fetched s = [url]" by (auto simp: root_only_def)
  moreover have "same_config (fst st) (PDFCrawler url 0)" if "st = (s, [])" for st
  proof -
    from crawl_final[where P = "\<lambda>st. same_config (fst st) (PDFCrawler url 0)" and e = e
        and c = "PDFCrawler url 0"] same_config_step[of _ "PDFCrawler url 0" e]
    obtain s' where "crawl e (PDFCrawler url 0) = Some s'" "same_config s' (PDFCrawler url 0)"
      by (auto simp: same_config_def crawl_init_def)
    with s(1) that show ?thesis by simp
  qed
  then have "base_url s = url" by (simp add: same_config_def PDFCrawler_def)
  ultimately show "\<exists>s. crawl e (PDFCrawler url 0) = Some s \<and> fetched s = [url]"
    using s(1) by blast
next
  let ?c = "PDFCrawler url depth"
  assume a: "(\<forall>ls. set (set_order e ls) = set ls) \<and>
    (\<forall>k. int k \<le> depth \<longrightarrow> u \<notin> set (layer e ?c k))"
  then have perm: "\<forall>ls. set (set_order e ls) = set ls" by simp
  have "reach_inv e ?c ((crawl_step e ^^ n) (crawl_init ?c))"
    by (rule funpow_inv[where P = "reach_inv e ?c"])
       (rule reach_inv_init, rule reach_inv_step[OF perm])
  then have "\<forall>v\<in>set (fetched (fst ((crawl_step e ^^ n) (crawl_init ?c)))).
               \<exists>k. int k \<le> max_depth ?c \<and> v \<in> set (layer e ?c k)"
    by (simp add: reach_inv_def list_all_iff)
  moreover have "max_depth ?c = depth" by (simp add: PDFCrawler_def)
  ultimately show "u \<notin> set (fetched (fst ((crawl_step e ^^ n) (crawl_init ?c))))"
    using a by metis
qed

theorem depth_boundary_witness:
  "(\<forall>ls. set (set_order ex_env ls) = set ls) \<and>
   (\<exists>s. crawl ex_env (PDFCrawler ''http://ex.com/a'' 0) = Some s \<and> fetched s = [''http://ex.com/a'']) \<and>
   ''http://ex.com/a/c'' \<notin> set (fetched (fst ((crawl_step ex_env ^^ 5)
        (crawl_init (PDFCrawler ''http://ex.com/a'' 1)))))"
proof -
  let ?c = "PDFCrawler ''http://ex.com/a'' 1"
  have h: "\<forall>ls. set (set_order ex_env ls) = set ls" by (simp add: ex_env_def)
  have 0: "''http://ex.com/a/c'' \<notin> set (layer ex_env ?c 0)" by code_simp
  have 1: "''http://ex.com/a/c'' \<notin> set (layer ex_env ?c (Suc 0))" by code_simp
  have far: "\<forall>k. int k \<le> 1 \<longrightarrow> ''http://ex.com/a/c'' \<notin> set (layer ex_env ?c k)"
  proof (intro allI impI)
    fix k :: nat assume "int k \<le> 1"
    then have "k = 0 \<or> k = Suc 0" by auto
    with 0 1 show "''http://ex.com/a/c'' \<notin> set (layer ex_env ?c k)" by auto
  qed
  from depth_boundary[where e = ex_env and url = "''http://ex.com/a''" and depth = 1 and n = 5
      and u = "''http://ex.com/a/c''"] far h
  show ?thesis by blast
qed

section \<open>Depths in the frontier\<close>

text \<open>
  Claim C4 says that every pair in the frontier has a depth of at most \<^verbatim>\<open>max_depth\<close>.
  With \<^verbatim>\<open>max_depth = 0\<close>, the first iteration on the small web leaves a pair of depth 1 in
  the frontier.
\<close>

theorem frontier_depth_counterexample:
  "snd (crawl_step ex_env (crawl_init (PDFCrawler ''http://ex.com/a'' 0))) = [(''http://ex.com/a/b'', 1)] \<and>
   \<not> (1 \<le> max_depth (PDFCrawler ''http://ex.com/a'' 0))"
  by code_simp

text \<open>
  Claim C4, amended. For \<^verbatim>\<open>max_depth \<ge> 0\<close>, at every point of a crawl every pair in the
  frontier has a depth between 0 and \<^verbatim>\<open>max_depth + 1\<close>; a pair whose depth exceeds
  \<^verbatim>\<open>max_depth\<close> is dropped when it is dequeued, without a request.
\<close>

theorem frontier_depth_bound:
  assumes "0 \<le> depth"
  shows "list_all (\<lambda>(u, d). 0 \<le> d \<and> d \<le> depth + 1)
           (snd ((crawl_step e ^^ n) (crawl_init (PDFCrawler url depth)))) \<and>
         (\<forall>s u d q. max_depth s < d \<longrightarrow> crawl_step e (s, (u, d) # q) = (s, q))"
proof
  let ?st = "(crawl_step e ^^ n) (crawl_init (PDFCrawler url depth))"
  have "depth_inv ?st"
    by (rule funpow_inv[where P = depth_inv]) (rule depth_inv_init[OF assms], rule depth_inv_step)
  moreover have "max_depth (fst ?st) = depth"
    by (rule funpow_inv[where P = "\<lambda>st. max_depth (fst st) = depth"])
       (simp_all add: crawl_step_max_depth crawl_init_def PDFCrawler_def)
  ultimately show "list_all (\<lambda>(u, d). 0 \<le> d \<and> d \<le> depth + 1) (snd ?st)"
    by (simp add: depth_inv_def)
next
  show "\<forall>s u d q. max_depth s < d \<longrightarrow> crawl_step e (s, (u, d) # q) = (s, q)" by simp
qed

theorem frontier_depth_bound_witness:
  "(0::int) \<le> 0 \<and>
   list_all (\<lambda>(u, d). 0 \<le> d \<and> d \<le> 0 + 1)
     (snd ((crawl_step ex_env ^^ 1) (crawl_init (PDFCrawler ''http://ex.com/a'' 0)))) \<and>
   snd ((crawl_step ex_env ^^ 1) (crawl_init (PDFCrawler ''http://ex.com/a'' 0))) \<noteq> []"
proof -
  have "snd (crawl_step ex_env (crawl_init (PDFCrawler ''http://ex.com/a'' 0))) \<noteq> []" by code_simp
  with frontier_depth_bound[where depth = 0 and e = ex_env and n = 1 and url = "''http://ex.com/a''"]
  show ?thesis by simp
qed

section \<open>PDF links are collected whatever their scope\<close>

text \<open>
  Claim C5. Take a page \<open>u\<close> whose request answered with the anchors \<open>hs\<close>, and a link
  \<open>l\<close> among the URLs the anchor loop extracts from it (fragment stripped) that ends in
  \<^verbatim>\<open>.pdf\<close>. If \<^verbatim>\<open>PDFCrawler.crawl\<close> requested \<open>u\<close> and the status raised no error, \<open>l\<close> is
  in \<open>pdf_urls\<close> at the end; if \<^verbatim>\<open>find_all_pdfs\<close> visited \<open>u\<close>, \<open>l\<close> is in the
  set of PDFs it returns. Neither statement asks anything of the domain or path of \<open>l\<close>.
  Pages are different: every URL in \<open>visited_urls\<close> other than the start URL passes
  \<^verbatim>\<open>is_valid_url\<close> and is no PDF.
\<close>

theorem pdf_scope_independent:
  assumes "http_get e u = Resp status hs" and "l \<in> set (extracted hs)" and "is_pdf l"
  shows "(crawl e (PDFCrawler url depth) = Some s \<and> u \<in> set (fetched s) \<and>
            \<not> raise_for_status status \<longrightarrow> l \<in> pdf_urls s) \<and>
         (find_all_pdfs e url = Some (P, V) \<and> u \<in> V \<longrightarrow> l \<in> P) \<and>
         ((\<forall>ls. set (set_order e ls) = set ls) \<and> crawl e (PDFCrawler url depth) = Some s \<longrightarrow>
            (\<forall>v\<in>visited_urls s. v = url \<or> (is_valid_url (PDFCrawler url depth) v \<and> \<not> is_pdf v)))"
proof (intro conjI impI)
  let ?c = "PDFCrawler url depth"
  assume a: "crawl e ?c = Some s \<and> u \<in> set (fetched s) \<and> \<not> raise_for_status status"
  from crawl_final[where P = "pdf_inv e ?c", OF pdf_inv_init pdf_inv_step]
  obtain s' where "crawl e ?c = Some s'" "pdf_inv e ?c (s', [])" by blast
  with a have "page_pdfs e u \<subseteq> pdf_urls s" by (auto simp: pdf_inv_def list_all_iff)
  moreover from assms a have "l \<in> page_pdfs e u" by (simp add: page_pdfs_def)
  ultimately show "l \<in> pdf_urls s" by blast
next
  assume a: "find_all_pdfs e url = Some (P, V) \<and> u \<in> V"
  from assms have "l \<in> finder_pdfs e u" by (simp add: finder_pdfs_def is_pdf_def)
  with a find_final[of e url P V] show "l \<in> P" by blast
next
  let ?c = "PDFCrawler url depth"
  assume a: "(\<forall>ls. set (set_order e ls) = set ls) \<and> crawl e ?c = Some s"
  then have perm: "\<forall>ls. set (set_order e ls) = set ls" by simp
  from crawl_final[where P = "scope_inv ?c", OF scope_inv_init scope_inv_step[OF perm]]
  obtain s' where "crawl e ?c = Some s'" "scope_inv ?c (s', [])" by blast
  with a have "visited_urls s \<subseteq> insert (base_url ?c)
      {l. \<not> is_pdf l \<and> is_valid_url ?c l \<and> CHR ''#'' \<notin> set l}"
    by (simp add: scope_inv_def)
  moreover have "base_url ?c = url" by (simp add: PDFCrawler_def)
  ultimately show "\<forall>v\<in>visited_urls s. v = url \<or> (is_valid_url ?c v \<and> \<not> is_pdf v)" by auto
qed

theorem pdf_scope_independent_witness:
  "http_get ex_env ''http://ex.com/a'' =
     Resp 200 [Resolved ''http://ex.com/a/b'', Resolved ''http://ex.com/a/b#s'',
               Resolved ''http://other.org/x.pdf'', Resolved ''http://other.org/y''] \<and>
   is_pdf ''http://other.org/x.pdf'' \<and>
   \<not> is_valid_url (PDFCrawler ''http://ex.com/a'' 1) ''http://other.org/x.pdf'' \<and>
   (\<forall>ls. set (set_order ex_env ls) = set ls) \<and>
   (\<exists>s. crawl ex_env (PDFCrawler ''http://ex.com/a'' 1) = Some s \<and>
        ''http://ex.com/a'' \<in> set (fetched s) \<and> ''http://other.org/x.pdf'' \<in> pdf_urls s \<and>
        ''http://ex.com/a/b'' \<in> visited_urls s \<and>
        is_valid_url (PDFCrawler ''http://ex.com/a'' 1) ''http://ex.com/a/b'') \<and>
   (\<exists>P V. find_all_pdfs ex_env ''http://ex.com/a'' = Some (P, V) \<and>
        ''http://ex.com/a'' \<in> V \<and> ''http://other.org/x.pdf'' \<in> P)"
proof -
  let ?hs = "[Resolved ''http://ex.com/a/b'', Resolved ''http://ex.com/a/b#s'',
              Resolved ''http://other.org/x.pdf'', Resolved ''http://other.org/y'']"
  let ?s = "\<lparr>base_url = ''http://ex.com/a'', base_domain = ''ex.com'', max_depth = 1,
     visited_urls = {''http://ex.com/a/c'', ''http://ex.com/a/b'', ''http://ex.com/a''},
     pdf_urls = {''http://ex.com/a/c.PDF'', ''http://other.org/x.pdf''},
     fetched = [''http://ex.com/a'', ''http://ex.com/a/b'']\<rparr>"
  let ?P = "{''http://ex.com/a/d.pdf'', ''http://ex.com/a/c.PDF'', ''http://other.org/x.pdf''}"
  let ?V = "{''http://ex.com/a/c'', ''http://ex.com/a/b'', ''http://ex.com/a''}"
  have g: "http_get ex_env ''http://ex.com/a'' = Resp 200 ?hs" by (simp add: ex_env_def ex_get_def)
  have x: "''http://other.org/x.pdf'' \<in> set (extracted ?hs)" by code_simp
  have p: "is_pdf ''http://other.org/x.pdf''" by code_simp
  have v: "\<not> is_valid_url (PDFCrawler ''http://ex.com/a'' 1) ''http://other.org/x.pdf''" by code_simp
  have c: "crawl ex_env (PDFCrawler ''http://ex.com/a'' 1) = Some ?s" by code_simp
  have f: "find_all_pdfs ex_env ''http://ex.com/a'' = Some (?P, ?V)" by code_simp
  have r: "\<not> raise_for_status 200" by (simp add: raise_for_status_def)
  have o: "\<forall>ls. set (set_order ex_env ls) = set ls" by (simp add: ex_env_def)
  note T = pdf_scope_independent[OF g x p, of "''http://ex.com/a''" 1 ?s ?P ?V]
  from T c f r have 1: "''http://other.org/x.pdf'' \<in> pdf_urls ?s" "''http://other.org/x.pdf'' \<in> ?P"
    by simp_all
  from T c o have "\<forall>v\<in>visited_urls ?s. v = ''http://ex.com/a'' \<or>
      (is_valid_url (PDFCrawler ''http://ex.com/a'' 1) v \<and> \<not> is_pdf v)" by blast
  then have 2: "is_valid_url (PDFCrawler ''http://ex.com/a'' 1) ''http://ex.com/a/b''" by simp
  from g p v c f o 1 2 show ?thesis by simp
qed

section \<open>What counts as a PDF\<close>




section \<open>The start URL keeps its fragment\<close>

text \<open>
  Claim C7 says that a URL and the same URL with a fragment are one node, the start URL
  included. Links are stripped of their fragment (\<open>link_fragment_invariant\<close>), the start
  URL is not: started at \<^verbatim>\<open>http://ex.com/a#top\<close> on a page that links to itself, both crawlers
  store the start URL with its fragment and request the page a second time under
  \<^verbatim>\<open>http://ex.com/a\<close>; started at \<^verbatim>\<open>http://ex.com/a\<close> they request it once.
\<close>

theorem start_url_fragment_kept:
  "crawl self_link (PDFCrawler ''http://ex.com/a#top'' 1) =
     Some \<lparr>base_url = ''http://ex.com/a#top'', base_domain = ''ex.com'', max_depth = 1,
           visited_urls = {''http://ex.com/a#top'', ''http://ex.com/a''}, pdf_urls = {},
           fetched = [''http://ex.com/a#top'', ''http://ex.com/a'']\<rparr> \<and>
   crawl self_link (PDFCrawler ''http://ex.com/a'' 1) =
     Some \<lparr>base_url = ''http://ex.com/a'', base_domain = ''ex.com'', max_depth = 1,
           visited_urls = {''http://ex.com/a''}, pdf_urls = {},
           fetched = [''http://ex.com/a'']\<rparr> \<and>
   find_all_pdfs self_link ''http://ex.com/a#top'' =
     Some ({}, {''http://ex.com/a#top'', ''http://ex.com/a''}) \<and>
   find_all_pdfs self_link ''http://ex.com/a'' = Some ({}, {''http://ex.com/a''})"
  by code_simp

section \<open>Failed requests\<close>

text \<open>
  Claim C8 says that a failed request, a response with a status outside 2xx included, is
  caught, that the run goes on, and that a failed root leaves no PDF and only the start URL
  visited. \<^verbatim>\<open>PDFCrawler\<close> does so for an exception and for a status that
  \<^verbatim>\<open>raise_for_status\<close> rejects (\<open>crawl_step_failure\<close>, \<open>crawl_root_failure\<close>), and
  \<^verbatim>\<open>find_all_pdfs\<close> for an exception (\<open>find_root_failure\<close>). But \<^verbatim>\<open>find_all_pdfs\<close> never
  looks at the status: on a root that answers 404 with a body linking to a PDF it returns
  that PDF, where \<^verbatim>\<open>PDFCrawler\<close> returns none.
\<close>

theorem finder_ignores_status:
  "http_get not_found ''http://ex.com/a'' = Resp 404 [Resolved ''http://ex.com/x.pdf''] \<and>
   find_all_pdfs not_found ''http://ex.com/a'' = Some ({''http://ex.com/x.pdf''}, {''http://ex.com/a''}) \<and>
   crawl not_found (PDFCrawler ''http://ex.com/a'' 1) =
     Some \<lparr>base_url = ''http://ex.com/a'', base_domain = ''ex.com'', max_depth = 1,
           visited_urls = {''http://ex.com/a''}, pdf_urls = {},
           fetched = [''http://ex.com/a'']\<rparr>"
  by code_simp

section \<open>One failed download does not stop the others\<close>



section \<open>Visited URLs and requested pages\<close>

text \<open>
  Claim C10. At the end of every crawl \<open>visited_urls\<close> has at least as many elements as
  pages were requested, and it can have more: on the web of two pages with
  \<^verbatim>\<open>max_depth = 0\<close>, the crawl requests the root only, and \<open>visited_urls\<close> ends with two
  elements, since the link found on the root was enqueued at depth 1, marked visited, and
  dropped at dequeue.
\<close>

theorem visited_exceeds_fetched:
  "(\<exists>s. crawl e (PDFCrawler url depth) = Some s \<and> length (fetched s) \<le> card (visited_urls s)) \<and>
   (\<exists>s. crawl two_pages (PDFCrawler ''http://ex.com/a'' 0) = Some s \<and>
       fetched s = [''http://ex.com/a''] \<and>
       visited_urls s = {''http://ex.com/a'', ''http://ex.com/a/b''} \<and>
       length (fetched s) < card (visited_urls s))"
proof
  let ?P = "\<lambda>st. once_inv st \<and> finite (visited_urls (fst st))"
  have "?P (crawl_init (PDFCrawler url depth))"
    using once_inv_init[of url depth] by (simp add: crawl_init_def PDFCrawler_def)
  moreover have "\<And>st. ?P st \<Longrightarrow> ?P (crawl_step e st)"
    using once_inv_step visited_finite_step by blast
  ultimately obtain s where s: "crawl e (PDFCrawler url depth) = Some s" "?P (s, [])"
    using crawl_final[where P = ?P and e = e and c = "PDFCrawler url depth"] by blast
  from s(2) have "distinct (fetched s)" "set (fetched s) \<subseteq> visited_urls s" "finite (visited_urls s)"
    by (simp_all add: once_inv_def)
  then have "length (fetched s) \<le> card (visited_urls s)"
    by (metis card_mono distinct_card)
  with s(1) show "\<exists>s. crawl e (PDFCrawler url depth) = Some s \<and>
      length (fetched s) \<le> card (visited_urls s)" by blast
next
  have "crawl two_pages (PDFCrawler ''http://ex.com/a'' 0) =
     Some \<lparr>base_url = ''http://ex.com/a'', base_domain = ''ex.com'', max_depth = 0,
           visited_urls = {''http://ex.com/a'', ''http://ex.com/a/b''},
           pdf_urls = {}, fetched = [''http://ex.com/a'']\<rparr>"
    by code_simp
  then show "\<exists>s. crawl two_pages (PDFCrawler ''http://ex.com/a'' 0) = Some s \<and>
       fetched s = [''http://ex.com/a''] \<and>
       visited_urls s = {''http://ex.com/a'', ''http://ex.com/a/b''} \<and>
       length (fetched s) < card (visited_urls s)" by simp
qed

end
